theory Spec2Isabelle
  imports Main "HOL-Library.Word"
begin

section \<open>Exceptions\<close>

text \<open>
  Every \<^verbatim>\<open>raise\<close> of the two modules, and every exception the interpreter or a
  collaborator raises on their paths, is a value of \<open>exn\<close>; a function that can raise
  returns \<open>exn + 'a\<close> with \<open>Inl\<close> for the exception. Only the exception class is kept.
  \<open>OtherError\<close> stands for any exception class not named here (the external
  collaborators may raise anything).
\<close>

datatype exn =
    UserNotFoundError
  | TypeError
  | KeyError
  | AssertionError
  | JSONDecodeError
  | ConnectionClosedOK
  | ConnectionClosedError
  | OtherError string

section \<open>authdb.py: the credential store\<close>

text \<open>
  \<^verbatim>\<open>Token = str\<close>; \<^verbatim>\<open>TwitchUserId\<close> comes from \<^verbatim>\<open>first.twitch\<close> and is used as the
  opaque key of the table. SQLite's \<^verbatim>\<open>CURRENT_TIMESTAMP\<close> is the text
  \<^verbatim>\<open>YYYY-MM-DD HH:MM:SS\<close>: the clock read in whole seconds. A stored timestamp is modelled
  by that number of seconds, \<open>None\<close> being SQL's NULL, and \<^verbatim>\<open>Time\<close> (the
  \<^verbatim>\<open>datetime\<close> that \<^verbatim>\<open>fromisoformat\<close> parses from the text) by the same number.
\<close>

type_synonym Token = string
type_synonym TwitchUserId = string
type_synonym Time = nat

text \<open>One row of the table \<^verbatim>\<open>twitch_tokens\<close>; the table is the list of its rows.\<close>

record row =
  user_id :: TwitchUserId
  access_token :: Token
  refresh_token :: Token
  created_at :: "Time option"
  updated_at :: "Time option"

text \<open>
  \<^verbatim>\<open>INSERT INTO twitch_tokens (user_id, access_token, refresh_token) VALUES (...)\<close>:
  both timestamp columns take their default, \<^verbatim>\<open>CURRENT_TIMESTAMP\<close>.
\<close>

definition insert_row :: "Time \<Rightarrow> TwitchUserId \<Rightarrow> Token \<Rightarrow> Token \<Rightarrow> row" where
  "insert_row now uid a r =
     \<lparr>user_id = uid, access_token = a, refresh_token = r,
      created_at = Some now, updated_at = Some now\<rparr>"

text \<open>
  \<^verbatim>\<open>DO UPDATE SET access_token = :access_token, refresh_token = :refresh_token\<close>,
  on the row that conflicts.
\<close>

definition do_update_set :: "Token \<Rightarrow> Token \<Rightarrow> row \<Rightarrow> row" where
  "do_update_set a r old = old\<lparr>access_token := a, refresh_token := r\<rparr>"

text \<open>
  The trigger \<^verbatim>\<open>UPDATE_DT\<close>: after an update of a row, when
  \<^verbatim>\<open>OLD.updated_at = NEW.updated_at OR OLD.updated_at IS NULL\<close>, set \<^verbatim>\<open>updated_at\<close> of
  the row with the new row's \<^verbatim>\<open>user_id\<close> to \<^verbatim>\<open>CURRENT_TIMESTAMP\<close>. In SQL a comparison
  with NULL is not true, so the condition holds when the old value is NULL or when both
  values are equal and not NULL. The trigger's own update does not fire it again
  (SQLite's recursive triggers are off unless a pragma turns them on, and the module
  sets none).
\<close>

definition UPDATE_DT_when :: "row \<Rightarrow> row \<Rightarrow> bool" where
  "UPDATE_DT_when old new =
     (case updated_at old of None \<Rightarrow> True | Some t \<Rightarrow> updated_at new = Some t)"

definition UPDATE_DT :: "Time \<Rightarrow> row \<Rightarrow> row \<Rightarrow> row" where
  "UPDATE_DT now old new =
     (if UPDATE_DT_when old new then new\<lparr>updated_at := Some now\<rparr> else new)"

text \<open>
  \<^verbatim>\<open>update_or_create_user\<close>: the statement \<^verbatim>\<open>INSERT ... ON CONFLICT (user_id) DO UPDATE
  SET ...\<close> followed by the commit, all under the store's lock. The row with the given
  \<^verbatim>\<open>user_id\<close> is updated (and the trigger runs on it); when there is none, a new row is
  added. \<open>now\<close> is the clock at the statement.
\<close>

fun update_or_create_user :: "Time \<Rightarrow> TwitchUserId \<Rightarrow> Token \<Rightarrow> Token \<Rightarrow> row list \<Rightarrow> row list" where
  "update_or_create_user now uid a r [] = [insert_row now uid a r]"
| "update_or_create_user now uid a r (x # xs) =
     (if user_id x = uid then UPDATE_DT now x (do_update_set a r x) # xs
      else x # update_or_create_user now uid a r xs)"

text \<open>
  \<^verbatim>\<open>SELECT ... FROM twitch_tokens WHERE user_id = :user_id\<close> with \<^verbatim>\<open>fetchone()\<close>: the
  first matching row, or Python's \<^verbatim>\<open>None\<close>.
\<close>

definition fetchone :: "TwitchUserId \<Rightarrow> row list \<Rightarrow> row option" where
  "fetchone uid db = find (\<lambda>x. user_id x = uid) db"

definition get_access_token :: "TwitchUserId \<Rightarrow> row list \<Rightarrow> exn + Token" where
  "get_access_token uid db =
     (case fetchone uid db of None \<Rightarrow> Inl UserNotFoundError | Some x \<Rightarrow> Inr (access_token x))"

definition get_refresh_token :: "TwitchUserId \<Rightarrow> row list \<Rightarrow> exn + Token" where
  "get_refresh_token uid db =
     (case fetchone uid db of None \<Rightarrow> Inl UserNotFoundError | Some x \<Rightarrow> Inr (refresh_token x))"

text \<open>
  \<^verbatim>\<open>get_created_at_time\<close> and \<^verbatim>\<open>get_updated_at_time\<close> unpack the result of
  \<^verbatim>\<open>fetchone()\<close> at once (\<^verbatim>\<open>created_at, = result.fetchone()\<close>): with no row the
  unpacking of \<^verbatim>\<open>None\<close> raises \<^verbatim>\<open>TypeError\<close>. A NULL timestamp comes back as
  \<^verbatim>\<open>None\<close>, and \<^verbatim>\<open>None + "Z"\<close> raises \<^verbatim>\<open>TypeError\<close> too. Otherwise the text is
  parsed as a UTC time (by a \<^verbatim>\<open>fromisoformat\<close> that accepts the trailing \<^verbatim>\<open>Z\<close>, as
  Python 3.11 and later do).
\<close>

definition get_created_at_time :: "TwitchUserId \<Rightarrow> row list \<Rightarrow> exn + Time" where
  "get_created_at_time uid db =
     (case fetchone uid db of
        None \<Rightarrow> Inl TypeError
      | Some x \<Rightarrow> (case created_at x of None \<Rightarrow> Inl TypeError | Some t \<Rightarrow> Inr t))"

definition get_updated_at_time :: "TwitchUserId \<Rightarrow> row list \<Rightarrow> exn + Time" where
  "get_updated_at_time uid db =
     (case fetchone uid db of
        None \<Rightarrow> Inl TypeError
      | Some x \<Rightarrow> (case updated_at x of None \<Rightarrow> Inl TypeError | Some t \<Rightarrow> Inr t))"

text \<open>
  The \<^verbatim>\<open>UNIQUE\<close> constraint on \<^verbatim>\<open>user_id\<close>, which SQLite keeps on every table the
  module creates.
\<close>

definition unique_user_id :: "row list \<Rightarrow> bool" where
  "unique_user_id db = distinct (map user_id db)"

text \<open>
  \<^verbatim>\<open>get_updated_at_time\<close> has strictly increased from one table to another: both
  calls return, and the second time is later.
\<close>

definition updated_at_advances :: "TwitchUserId \<Rightarrow> row list \<Rightarrow> row list \<Rightarrow> bool" where
  "updated_at_advances uid db db' =
     (case get_updated_at_time uid db of
        Inl e \<Rightarrow> False
      | Inr t \<Rightarrow> (case get_updated_at_time uid db' of Inl e \<Rightarrow> False | Inr t' \<Rightarrow> t < t'))"

subsection \<open>The token provider\<close>

text \<open>
  \<^verbatim>\<open>Twitch().refresh_auth_token\<close> is the external OAuth client (\<^verbatim>\<open>first.twitch\<close>): it
  is a parameter, a function from the refresh token it is sent to the pair it answers
  with or the exception it raises. The world a provider acts on is the table and the
  record of what was sent to that endpoint, oldest first.
\<close>

record refresh_result =
  new_access_token :: Token
  new_refresh_token :: Token

record world =
  twitch_tokens :: "row list"
  refresh_requests :: "Token list"

definition provider_get_access_token :: "TwitchUserId \<Rightarrow> world \<Rightarrow> exn + Token" where
  "provider_get_access_token uid w = get_access_token uid (twitch_tokens w)"

definition refresh_access_token ::
  "(Token \<Rightarrow> exn + refresh_result) \<Rightarrow> Time \<Rightarrow> TwitchUserId \<Rightarrow> world \<Rightarrow> (exn + Token) \<times> world" where
  "refresh_access_token refresh_auth_token now uid w =
     (case get_refresh_token uid (twitch_tokens w) of
        Inl e \<Rightarrow> (Inl e, w)
      | Inr rt \<Rightarrow>
          (let w1 = w\<lparr>refresh_requests := refresh_requests w @ [rt]\<rparr> in
           case refresh_auth_token rt of
             Inl e \<Rightarrow> (Inl e, w1)
           | Inr res \<Rightarrow>
               (Inr (new_access_token res),
                w1\<lparr>twitch_tokens :=
                     update_or_create_user now uid (new_access_token res)
                       (new_refresh_token res) (twitch_tokens w1)\<rparr>)))"

section \<open>twitch_eventsub.py: the EventSub WebSocket thread\<close>

subsection \<open>Messages and requests\<close>

text \<open>
  What \<^verbatim>\<open>json.loads\<close> returns: \<^verbatim>\<open>None\<close>, a bool, a number, a \<^verbatim>\<open>str\<close>, a list, or
  a \<^verbatim>\<open>dict\<close> with \<^verbatim>\<open>str\<close> keys (an association list, read from the front). Numbers
  are not looked at by the module and are kept as integers.
\<close>

datatype json =
    JNull
  | JBool bool
  | JNumber int
  | JString string
  | JArray "json list"
  | JObject "(string \<times> json) list"

text \<open>
  Python's \<^verbatim>\<open>value[key]\<close> with a \<^verbatim>\<open>str\<close> key: a \<^verbatim>\<open>dict\<close> raises \<^verbatim>\<open>KeyError\<close> when
  the key is missing; every other JSON value raises \<^verbatim>\<open>TypeError\<close> (a list or a
  \<^verbatim>\<open>str\<close> wants an integer index, the others take no index).
\<close>

fun getitem :: "json \<Rightarrow> string \<Rightarrow> exn + json" where
  "getitem (JObject kvs) k = (case map_of kvs k of None \<Rightarrow> Inl KeyError | Some v \<Rightarrow> Inr v)"
| "getitem _ k = Inl TypeError"

text \<open>What \<^verbatim>\<open>client.recv()\<close> returns: a \<^verbatim>\<open>str\<close> or \<^verbatim>\<open>bytes\<close>.\<close>

datatype message = Text string | Binary "8 word list"

text \<open>
  \<^verbatim>\<open>_Subscription\<close>, and the \<^verbatim>\<open>dict\<close> passed to
  \<^verbatim>\<open>request_eventsub_subscription\<close>: the subscription's three fields and
  \<^verbatim>\<open>"transport": {"method": ..., "session_id": ...}\<close>. The condition is any value the
  caller gives; it is only passed on.
\<close>

record subscription =
  type :: string
  version :: string
  condition :: json

record transport =
  transport_method :: string
  session_id :: json

record request = subscription +
  transport :: transport

definition request_of :: "json \<Rightarrow> subscription \<Rightarrow> request" where
  "request_of sid sub =
     \<lparr>type = type sub, version = version sub, condition = condition sub,
      transport = \<lparr>transport_method = ''websocket'', session_id = sid\<rparr>\<rparr>"

subsection \<open>The state of one TwitchEventSubWebSocketThread\<close>

text \<open>
  Where the background thread stands in \<^verbatim>\<open>_run_thread\<close>. Each constructor is a point
  where the thread takes or waits for the lock, or waits for the network:
  the two \<^verbatim>\<open>with self._lock\<close> blocks of \<^verbatim>\<open>_maybe_create_client\<close> and the
  \<^verbatim>\<open>connect\<close> between them, \<^verbatim>\<open>client.recv()\<close> in \<^verbatim>\<open>_handle_client\<close>, the two
  statements of the \<^verbatim>\<open>finally\<close> block (with the exception that is passing through
  it, if any), and the two ways the thread ends. Sockets are numbered in the order
  \<^verbatim>\<open>connect\<close> returns them.
\<close>

datatype bg_pc =
    Create_First_Lock
  | Connect
  | Create_Second_Lock nat
  | Recv nat
  | Finally_Close nat "exn option"
  | Finally_Lock "exn option"
  | Returned
  | Raised exn

text \<open>
  Where a call of \<^verbatim>\<open>stop_thread\<close> stands after its first locked block: about to
  close the socket it read from \<^verbatim>\<open>_client\<close> (if any), at its second locked block,
  in \<^verbatim>\<open>thread.join()\<close> on the thread it read from \<^verbatim>\<open>_thread\<close>, or returned (with
  the thread it joined, if any).
\<close>

datatype stop_pc =
    Stop_Close "nat option"
  | Stop_Second_Lock
  | Stop_Join nat
  | Stop_Returned "nat option"

text \<open>
  The object's fields: \<^verbatim>\<open>_twitch\<close> (the API client, an external collaborator: what
  \<^verbatim>\<open>request_eventsub_subscription\<close> raises for a request, \<open>None\<close> when it returns),
  \<^verbatim>\<open>_subscriptions\<close>, \<^verbatim>\<open>_thread\<close> (the number of the thread the handle refers to:
  the threads are numbered as \<^verbatim>\<open>start_thread\<close> creates them), \<^verbatim>\<open>_should_stop\<close> and
  \<^verbatim>\<open>_client\<close>. The rest is the state around the object: \<open>bg\<close>, where the thread of
  \<^verbatim>\<open>_thread\<close> stands (\<^verbatim>\<open>start_thread\<close> replaces the handle only when the thread it
  refers to is no longer alive, so every earlier thread has ended); \<open>sockets\<close>, how many
  sockets \<^verbatim>\<open>connect\<close> has returned; \<open>closed\<close>, the sockets \<^verbatim>\<open>close()\<close> was called on;
  \<open>requests\<close>, the calls of \<^verbatim>\<open>request_eventsub_subscription\<close> made so far, oldest
  first; \<open>stops\<close>, the calls of \<^verbatim>\<open>stop_thread\<close> made so far.
\<close>

record mgr =
  twitch :: "request \<Rightarrow> exn option"
  subscriptions :: "subscription list"
  thread :: "nat option"
  should_stop :: bool
  client :: "nat option"
  bg :: bg_pc
  sockets :: nat
  closed :: "nat set"
  requests :: "request list"
  stops :: "stop_pc list"

text \<open>\<^verbatim>\<open>__init__\<close> and the class attributes' defaults; no thread exists yet.\<close>

definition init :: "(request \<Rightarrow> exn option) \<Rightarrow> mgr" where
  "init tw =
     \<lparr>twitch = tw, subscriptions = [], thread = None, should_stop = False, client = None,
      bg = Returned, sockets = 0, closed = {}, requests = [], stops = []\<rparr>"

text \<open>\<^verbatim>\<open>self._thread is not None and self._thread.is_alive()\<close>.\<close>

definition thread_alive :: "mgr \<Rightarrow> bool" where
  "thread_alive s =
     (case thread s of
        None \<Rightarrow> False
      | Some k \<Rightarrow> (case bg s of Returned \<Rightarrow> False | Raised e \<Rightarrow> False | _ \<Rightarrow> True))"

text \<open>The \<open>k\<close>-th thread is alive: the handle refers to it and it has not ended.\<close>

definition alive_thread :: "mgr \<Rightarrow> nat \<Rightarrow> bool" where
  "alive_thread s k = (thread s = Some k \<and> thread_alive s)"


subsection \<open>The caller's operations\<close>

text \<open>
  \<^verbatim>\<open>add_subscription\<close>. When \<^verbatim>\<open>_thread\<close> is set, the statement
  \<^verbatim>\<open>raise NotImplemented("dynamic subscriptions are not yet implemented")\<close> runs:
  \<^verbatim>\<open>NotImplemented\<close> is the constant, not the exception class
  \<^verbatim>\<open>NotImplementedError\<close>, and calling it raises \<^verbatim>\<open>TypeError\<close>
  (the object is not callable) before any \<^verbatim>\<open>raise\<close> happens.
\<close>

definition add_subscription :: "string \<Rightarrow> string \<Rightarrow> json \<Rightarrow> mgr \<Rightarrow> exn + mgr" where
  "add_subscription t v c s =
     (if thread s \<noteq> None then Inl TypeError
      else Inr (s\<lparr>subscriptions :=
                   subscriptions s @ [\<lparr>type = t, version = v, condition = c\<rparr>]\<rparr>))"

text \<open>
  \<^verbatim>\<open>start_thread\<close>: the two assertions, then the new thread, which starts at the top of
  \<^verbatim>\<open>_run_thread\<close>.
\<close>

definition start_thread :: "mgr \<Rightarrow> exn + mgr" where
  "start_thread s =
     (if subscriptions s = [] then Inl AssertionError
      else if thread_alive s then Inl AssertionError
      else Inr (s\<lparr>thread := Some (case thread s of None \<Rightarrow> 0 | Some k \<Rightarrow> Suc k),
                   bg := Create_First_Lock\<rparr>))"

text \<open>
  \<^verbatim>\<open>stop_thread\<close>, first locked block: set \<^verbatim>\<open>_should_stop\<close> and read \<^verbatim>\<open>_client\<close>.
\<close>

definition stop_thread_enter :: "mgr \<Rightarrow> mgr" where
  "stop_thread_enter s =
     s\<lparr>should_stop := True, stops := stops s @ [Stop_Close (client s)]\<rparr>"

text \<open>
  The next step of the \<open>i\<close>-th call of \<^verbatim>\<open>stop_thread\<close>: \<^verbatim>\<open>client.close()\<close> when it
  read a socket; the second locked block, which reads \<^verbatim>\<open>_thread\<close>; \<^verbatim>\<open>thread.join()\<close>,
  which returns once that thread is no longer alive and does not return before.
\<close>

definition stop_thread_continue :: "nat \<Rightarrow> mgr \<Rightarrow> mgr" where
  "stop_thread_continue i s =
     (if i < length (stops s) then
        (case stops s ! i of
           Stop_Close c \<Rightarrow>
             s\<lparr>closed := (case c of None \<Rightarrow> closed s | Some k \<Rightarrow> insert k (closed s)),
               stops := (stops s)[i := Stop_Second_Lock]\<rparr>
         | Stop_Second_Lock \<Rightarrow>
             s\<lparr>stops := (stops s)[i := (case thread s of
                                            None \<Rightarrow> Stop_Returned None
                                          | Some k \<Rightarrow> Stop_Join k)]\<rparr>
         | Stop_Join k \<Rightarrow>
             (if thread s = Some k \<and> thread_alive s then s
              else s\<lparr>stops := (stops s)[i := Stop_Returned (Some k)]\<rparr>)
         | Stop_Returned k \<Rightarrow> s)
      else s)"

subsection \<open>Message handling\<close>

text \<open>
  The \<^verbatim>\<open>for\<close> loop of \<^verbatim>\<open>_handle_json_message\<close>: one call per request, in order; a
  call that raises ends the loop. The result is the calls made and the exception, if
  one was raised.
\<close>

fun request_all :: "(request \<Rightarrow> exn option) \<Rightarrow> request list \<Rightarrow> request list \<times> exn option" where
  "request_all tw [] = ([], None)"
| "request_all tw (r # rs) =
     (case tw r of
        Some e \<Rightarrow> ([r], Some e)
      | None \<Rightarrow> (case request_all tw rs of (cs, res) \<Rightarrow> (r # cs, res)))"

text \<open>\<^verbatim>\<open>message['payload']['session']['id']\<close>.\<close>

definition payload_session_id :: "json \<Rightarrow> exn + json" where
  "payload_session_id m =
     (case getitem m ''payload'' of
        Inl e \<Rightarrow> Inl e
      | Inr p \<Rightarrow>
          (case getitem p ''session'' of
             Inl e \<Rightarrow> Inl e
           | Inr se \<Rightarrow> getitem se ''id''))"

text \<open>\<^verbatim>\<open>message["metadata"]["message_type"]\<close>.\<close>

definition metadata_message_type :: "json \<Rightarrow> exn + json" where
  "metadata_message_type m =
     (case getitem m ''metadata'' of
        Inl e \<Rightarrow> Inl e
      | Inr md \<Rightarrow> getitem md ''message_type'')"

text \<open>
  \<^verbatim>\<open>_handle_json_message\<close>: the exception it raises (if any) and the state after it,
  with the calls it made added to \<open>requests\<close>.
\<close>

definition handle_json_message :: "json \<Rightarrow> mgr \<Rightarrow> exn option \<times> mgr" where
  "handle_json_message m s =
     (case metadata_message_type m of
        Inl e \<Rightarrow> (Some e, s)
      | Inr mt \<Rightarrow>
          (if mt = JString ''session_welcome'' then
             (case payload_session_id m of
                Inl e \<Rightarrow> (Some e, s)
              | Inr sid \<Rightarrow>
                  (case request_all (twitch s) (map (request_of sid) (subscriptions s)) of
                     (cs, res) \<Rightarrow> (res, s\<lparr>requests := requests s @ cs\<rparr>)))
           else (None, s)))"

text \<open>
  \<^verbatim>\<open>_handle_raw_message\<close>. \<^verbatim>\<open>json.loads\<close> is the standard library's; it is a
  parameter: the value it returns for a text, or the exception it raises.
\<close>

definition handle_raw_message :: "(string \<Rightarrow> exn + json) \<Rightarrow> message \<Rightarrow> mgr \<Rightarrow> exn option \<times> mgr" where
  "handle_raw_message loads m s =
     (case m of
        Text t \<Rightarrow> (case loads t of Inl e \<Rightarrow> (Some e, s) | Inr j \<Rightarrow> handle_json_message j s)
      | Binary b \<Rightarrow> (Some TypeError, s))"

subsection \<open>The background thread\<close>

text \<open>
  The steps the thread takes by itself. \<^verbatim>\<open>_maybe_create_client\<close>, first locked block:
  the assertion, then \<^verbatim>\<open>return None\<close> when \<^verbatim>\<open>_should_stop\<close> is set (and
  \<^verbatim>\<open>_run_thread\<close> leaves its loop). Second locked block: the assertion; when
  \<^verbatim>\<open>_should_stop\<close> is set, close the new socket and \<^verbatim>\<open>return None\<close>; otherwise store
  the socket in \<^verbatim>\<open>_client\<close> and go on to \<^verbatim>\<open>_handle_client\<close>. The \<^verbatim>\<open>finally\<close> block
  of \<^verbatim>\<open>_run_thread\<close>: \<^verbatim>\<open>client.close()\<close>, then \<^verbatim>\<open>_client = None\<close> under the lock,
  then either the next round of the loop or the exception that was passing through.
\<close>

definition bg_step :: "mgr \<Rightarrow> mgr" where
  "bg_step s =
     (case bg s of
        Create_First_Lock \<Rightarrow>
          (if client s \<noteq> None then s\<lparr>bg := Raised AssertionError\<rparr>
           else if should_stop s then s\<lparr>bg := Returned\<rparr>
           else s\<lparr>bg := Connect\<rparr>)
      | Create_Second_Lock c \<Rightarrow>
          (if client s \<noteq> None then s\<lparr>bg := Raised AssertionError\<rparr>
           else if should_stop s then s\<lparr>closed := insert c (closed s), bg := Returned\<rparr>
           else s\<lparr>client := Some c, bg := Recv c\<rparr>)
      | Finally_Close c e \<Rightarrow> s\<lparr>closed := insert c (closed s), bg := Finally_Lock e\<rparr>
      | Finally_Lock e \<Rightarrow>
          (case e of
             None \<Rightarrow> s\<lparr>client := None, bg := Create_First_Lock\<rparr>
           | Some x \<Rightarrow> s\<lparr>client := None, bg := Raised x\<rparr>)
      | _ \<Rightarrow> s)"

text \<open>
  \<^verbatim>\<open>websockets.sync.client.connect\<close> completes: it returns a new socket, or raises
  (nothing in the thread catches that).
\<close>

definition connect_returns :: "mgr \<Rightarrow> mgr" where
  "connect_returns s =
     (case bg s of
        Connect \<Rightarrow> s\<lparr>sockets := Suc (sockets s), bg := Create_Second_Lock (sockets s)\<rparr>
      | _ \<Rightarrow> s)"

definition connect_raises :: "exn \<Rightarrow> mgr \<Rightarrow> mgr" where
  "connect_raises e s = (case bg s of Connect \<Rightarrow> s\<lparr>bg := Raised e\<rparr> | _ \<Rightarrow> s)"

text \<open>
  \<^verbatim>\<open>client.recv()\<close> completes in \<^verbatim>\<open>_handle_client\<close>. A message is handled outside the
  \<^verbatim>\<open>try\<close>: when handling raises, the exception leaves \<^verbatim>\<open>_handle_client\<close> and
  enters the \<^verbatim>\<open>finally\<close> block of \<^verbatim>\<open>_run_thread\<close>; otherwise the loop calls
  \<^verbatim>\<open>recv\<close> again. \<^verbatim>\<open>ConnectionClosedOK\<close> and \<^verbatim>\<open>ConnectionClosedError\<close> are caught and
  \<^verbatim>\<open>_handle_client\<close> returns; any other exception passes through.
\<close>

definition recv_returns :: "(string \<Rightarrow> exn + json) \<Rightarrow> message \<Rightarrow> mgr \<Rightarrow> mgr" where
  "recv_returns loads m s =
     (case bg s of
        Recv c \<Rightarrow>
          (case handle_raw_message loads m s of
             (None, s') \<Rightarrow> s'
           | (Some e, s') \<Rightarrow> s'\<lparr>bg := Finally_Close c (Some e)\<rparr>)
      | _ \<Rightarrow> s)"

definition recv_raises :: "exn \<Rightarrow> mgr \<Rightarrow> mgr" where
  "recv_raises e s =
     (case bg s of
        Recv c \<Rightarrow>
          (if e = ConnectionClosedOK \<or> e = ConnectionClosedError
           then s\<lparr>bg := Finally_Close c None\<rparr>
           else s\<lparr>bg := Finally_Close c (Some e)\<rparr>)
      | _ \<Rightarrow> s)"

subsection \<open>Interleavings\<close>

text \<open>
  What can happen next to one object: a caller's operation (each locked block is one
  step, since the lock excludes every other locked block), or a step of the
  background thread, with what the network answered. A caller's operation that raises
  leaves the object as it was; the background thread moves only while it is alive.
\<close>

datatype event =
    Add_Subscription string string json
  | Start_Thread
  | Stop_Thread
  | Stop_Continue nat
  | Bg_Step
  | Connect_Returns
  | Connect_Raises exn
  | Recv_Returns message
  | Recv_Raises exn

definition step :: "(string \<Rightarrow> exn + json) \<Rightarrow> event \<Rightarrow> mgr \<Rightarrow> mgr" where
  "step loads ev s =
     (case ev of
        Add_Subscription t v c \<Rightarrow> (case add_subscription t v c s of Inl e \<Rightarrow> s | Inr s' \<Rightarrow> s')
      | Start_Thread \<Rightarrow> (case start_thread s of Inl e \<Rightarrow> s | Inr s' \<Rightarrow> s')
      | Stop_Thread \<Rightarrow> stop_thread_enter s
      | Stop_Continue i \<Rightarrow> stop_thread_continue i s
      | Bg_Step \<Rightarrow> (if thread_alive s then bg_step s else s)
      | Connect_Returns \<Rightarrow> (if thread_alive s then connect_returns s else s)
      | Connect_Raises e \<Rightarrow> (if thread_alive s then connect_raises e s else s)
      | Recv_Returns m \<Rightarrow> (if thread_alive s then recv_returns loads m s else s)
      | Recv_Raises e \<Rightarrow> (if thread_alive s then recv_raises e s else s))"

fun run :: "(string \<Rightarrow> exn + json) \<Rightarrow> event list \<Rightarrow> mgr \<Rightarrow> mgr" where
  "run loads [] s = s"
| "run loads (ev # evs) s = run loads evs (step loads ev s)"

subsection \<open>Invariants of the reachable states\<close>

text \<open>
  \<^verbatim>\<open>_client\<close> holds the socket exactly while the thread is between storing it and the
  end of the \<^verbatim>\<open>finally\<close> block.
\<close>

definition client_inv :: "mgr \<Rightarrow> bool" where
  "client_inv s =
     (case bg s of
        Recv c \<Rightarrow> client s = Some c
      | Finally_Close c e \<Rightarrow> client s = Some c
      | Finally_Lock e \<Rightarrow> True
      | _ \<Rightarrow> client s = None)"

text \<open>
  A call of \<^verbatim>\<open>stop_thread\<close> that is in \<^verbatim>\<open>join\<close> waits for a thread that was created;
  one that has returned from \<^verbatim>\<open>join\<close> waited for a thread that is no longer alive.
\<close>

definition stop_inv :: "mgr \<Rightarrow> stop_pc \<Rightarrow> bool" where
  "stop_inv s p =
     (case p of
        Stop_Join k \<Rightarrow> (case thread s of None \<Rightarrow> False | Some j \<Rightarrow> k \<le> j)
      | Stop_Returned (Some k) \<Rightarrow>
          (case thread s of
             None \<Rightarrow> False
           | Some j \<Rightarrow> k < j \<or> (k = j \<and> \<not> thread_alive s))
      | _ \<Rightarrow> True)"

definition mgr_inv :: "mgr \<Rightarrow> bool" where
  "mgr_inv s =
     (client_inv s
      \<and> (thread s = None \<longrightarrow> bg s = Returned)
      \<and> (thread s \<noteq> None \<longrightarrow> subscriptions s \<noteq> [])
      \<and> (stops s \<noteq> [] \<longrightarrow> should_stop s)
      \<and> list_all (stop_inv s) (stops s))"


text \<open>
  The events of a caller other than a new call of \<^verbatim>\<open>stop_thread\<close>.
\<close>

definition caller_no_new_stop :: "event \<Rightarrow> bool" where
  "caller_no_new_stop ev =
     (case ev of
        Add_Subscription t v c \<Rightarrow> True
      | Start_Thread \<Rightarrow> True
      | Stop_Continue i \<Rightarrow> True
      | _ \<Rightarrow> False)"

section \<open>Example values\<close>

text \<open>
  Two refresh endpoints: one that answers every refresh token with the pair
  \<open>(''a2'', ''r2'')\<close>, and one that always raises. A world whose table holds one user.
\<close>

definition endpoint_ok :: "Token \<Rightarrow> exn + refresh_result" where
  "endpoint_ok rt = Inr \<lparr>new_access_token = ''a2'', new_refresh_token = ''r2''\<rparr>"

definition endpoint_down :: "Token \<Rightarrow> exn + refresh_result" where
  "endpoint_down rt = Inl (OtherError ''HTTPError'')"

definition world_one_user :: world where
  "world_one_user =
     \<lparr>twitch_tokens = update_or_create_user 10 ''42'' ''a1'' ''r1'' [],
      refresh_requests = []\<rparr>"

text \<open>
  An API client whose calls all return, and one whose calls all raise. A stand-in for
  \<^verbatim>\<open>json.loads\<close> on two texts (every other text is refused; the example runs receive
  no other). Two subscriptions, and a welcome message with the session id \<open>S1\<close>.
\<close>

definition twitch_ok :: "request \<Rightarrow> exn option" where
  "twitch_ok r = None"

definition twitch_down :: "request \<Rightarrow> exn option" where
  "twitch_down r = Some (OtherError ''HTTPError'')"

definition loads_example :: "string \<Rightarrow> exn + json" where
  "loads_example t =
     (if t = ''null'' then Inr JNull
      else if t = ''{}'' then Inr (JObject [])
      else Inl JSONDecodeError)"

definition sub_follow :: subscription where
  "sub_follow =
     \<lparr>type = ''channel.follow'', version = ''2'',
      condition = JObject [(''broadcaster_user_id'', JString ''42'')]\<rparr>"

definition sub_cheer :: subscription where
  "sub_cheer =
     \<lparr>type = ''channel.cheer'', version = ''1'',
      condition = JObject [(''broadcaster_user_id'', JString ''42'')]\<rparr>"

definition welcome_S1 :: json where
  "welcome_S1 =
     JObject
       [(''metadata'', JObject [(''message_type'', JString ''session_welcome'')]),
        (''payload'', JObject [(''session'', JObject [(''id'', JString ''S1'')])])]"

text \<open>
  A run up to the point where the thread has connected and waits in \<^verbatim>\<open>recv\<close> on
  socket 0: one subscription is added, the thread is started, passes the first locked
  block, connects, and publishes the socket.
\<close>

definition connected :: "event list" where
  "connected =
     [Add_Subscription ''channel.follow'' ''2'' JNull, Start_Thread, Bg_Step,
      Connect_Returns, Bg_Step]"

text \<open>An object on which two subscriptions have been registered.\<close>

definition two_subscriptions :: mgr where
  "two_subscriptions =
     run loads_example
       [Add_Subscription ''channel.follow'' ''2'' (JObject [(''broadcaster_user_id'', JString ''42'')]),
        Add_Subscription ''channel.cheer'' ''1'' (JObject [(''broadcaster_user_id'', JString ''42'')])]
       (init twitch_ok)"


text \<open>
  A run with a completed \<^verbatim>\<open>stop_thread\<close>: once the thread is connected,
  \<^verbatim>\<open>stop_thread\<close> sets the flag and closes socket 0, \<^verbatim>\<open>recv\<close> raises
  \<^verbatim>\<open>ConnectionClosedOK\<close>, the thread goes through the \<^verbatim>\<open>finally\<close> block and returns
  at the first locked block, and \<^verbatim>\<open>stop_thread\<close> reads \<^verbatim>\<open>_thread\<close> and returns from
  \<^verbatim>\<open>join\<close>.
\<close>

definition stopped :: "event list" where
  "stopped =
     connected @
     [Stop_Thread, Stop_Continue 0, Recv_Raises ConnectionClosedOK, Bg_Step, Bg_Step, Bg_Step,
      Stop_Continue 0, Stop_Continue 0]"

text \<open>The same two subscriptions on an object whose API client raises on every call.\<close>

definition two_subscriptions_down :: mgr where
  "two_subscriptions_down =
     run loads_example
       [Add_Subscription ''channel.follow'' ''2'' (JObject [(''broadcaster_user_id'', JString ''42'')]),
        Add_Subscription ''channel.cheer'' ''1'' (JObject [(''broadcaster_user_id'', JString ''42'')])]
       (init twitch_down)"



section \<open>Properties of the credential store\<close>

lemma UPDATE_DT_do_update_set:
  "UPDATE_DT now x (do_update_set a r x) =
     x\<lparr>access_token := a, refresh_token := r, updated_at := Some now\<rparr>"
  by (simp add: UPDATE_DT_def UPDATE_DT_when_def do_update_set_def split: option.split)

lemma fetchone_update_same:
  "fetchone uid (update_or_create_user now uid a r db) =
     Some (case fetchone uid db of
             None \<Rightarrow> insert_row now uid a r
           | Some x \<Rightarrow> x\<lparr>access_token := a, refresh_token := r, updated_at := Some now\<rparr>)"
  by (induction db) (simp_all add: fetchone_def insert_row_def UPDATE_DT_do_update_set)

lemma fetchone_update_other:
  "other \<noteq> uid \<Longrightarrow> fetchone other (update_or_create_user now uid a r db) = fetchone other db"
  by (induction db) (simp_all add: fetchone_def insert_row_def UPDATE_DT_do_update_set)

lemma user_ids_update:
  "map user_id (update_or_create_user now uid a r db) =
     (if uid \<in> set (map user_id db) then map user_id db else map user_id db @ [uid])"
  by (induction db) (auto simp: insert_row_def UPDATE_DT_do_update_set)

lemma unique_user_id_update:
  "unique_user_id db \<Longrightarrow> unique_user_id (update_or_create_user now uid a r db)"
  by (simp add: unique_user_id_def user_ids_update)

lemma update_absent:
  "fetchone uid db = None \<Longrightarrow>
     update_or_create_user now uid a r db = db @ [insert_row now uid a r]"
  by (induction db) (auto simp: fetchone_def split: if_splits)

lemma distinct_count_one:
  "distinct (map f xs) \<Longrightarrow> k \<in> set (map f xs) \<Longrightarrow> length (filter (\<lambda>x. f x = k) xs) = 1"
  by (induction xs) (auto simp: filter_empty_conv image_iff)

lemma one_row_after_update:
  "unique_user_id db \<Longrightarrow>
     length (filter (\<lambda>x. user_id x = uid) (update_or_create_user now uid a r db)) = 1"
  using distinct_count_one[of user_id "update_or_create_user now uid a r db" uid]
    unique_user_id_update[of db now uid a r]
  by (simp add: unique_user_id_def user_ids_update split: if_splits)

lemma get_updated_at_time_update:
  "get_updated_at_time uid (update_or_create_user now uid a r db) = Inr now"
  by (simp add: get_updated_at_time_def fetchone_update_same insert_row_def split: option.split)

text \<open>
  C4, as stated, fails in its last part: an upsert on an existing row does not
  overwrite only the two token fields. After a second upsert ten seconds later,
  \<^verbatim>\<open>updated_at\<close> has changed too, so the row is not the old row with its two token
  fields replaced.
\<close>

theorem upsert_overwrites_updated_at_counterexample:
  "fetchone ''42'' (update_or_create_user 10 ''42'' ''a1'' ''r1'' []) =
     Some (insert_row 10 ''42'' ''a1'' ''r1'')
   \<and> fetchone ''42''
       (update_or_create_user 20 ''42'' ''a2'' ''r2''
          (update_or_create_user 10 ''42'' ''a1'' ''r1'' [])) \<noteq>
     Some (do_update_set ''a2'' ''r2'' (insert_row 10 ''42'' ''a1'' ''r1''))
   \<and> get_updated_at_time ''42'' (update_or_create_user 10 ''42'' ''a1'' ''r1'' []) = Inr 10
   \<and> get_updated_at_time ''42''
       (update_or_create_user 20 ''42'' ''a2'' ''r2''
          (update_or_create_user 10 ''42'' ''a1'' ''r1'' [])) = Inr 20"
  by (simp add: fetchone_def insert_row_def UPDATE_DT_def UPDATE_DT_when_def do_update_set_def
      get_updated_at_time_def)

text \<open>
  C4, amended. On a table that satisfies the \<^verbatim>\<open>UNIQUE\<close> constraint, two upserts for
  the same \<^verbatim>\<open>user_id\<close>, \<open>(a1, r1)\<close> at time \<open>t1\<close> and then \<open>(a2, r2)\<close> at time \<open>t2\<close>:
  afterwards \<^verbatim>\<open>get_access_token\<close> returns \<open>a2\<close>, \<^verbatim>\<open>get_refresh_token\<close> returns \<open>r2\<close>,
  and \<^verbatim>\<open>get_created_at_time\<close> returns what it returned after the first upsert. After
  each upsert the table holds exactly one row for the \<^verbatim>\<open>user_id\<close>. An upsert on a
  table without a row for the \<^verbatim>\<open>user_id\<close> adds the new row and nothing else; on a
  table with one, it overwrites the row's two token fields and (through the trigger)
  \<^verbatim>\<open>updated_at\<close>, and leaves \<^verbatim>\<open>user_id\<close> and \<^verbatim>\<open>created_at\<close> as they were; the rows
  of other users are not touched.
\<close>

theorem update_or_create_user_twice:
  assumes "unique_user_id db"
  shows "(let db1 = update_or_create_user t1 uid a1 r1 db;
              db2 = update_or_create_user t2 uid a2 r2 db1
          in get_access_token uid db2 = Inr a2
           \<and> get_refresh_token uid db2 = Inr r2
           \<and> get_created_at_time uid db2 = get_created_at_time uid db1
           \<and> length (filter (\<lambda>x. user_id x = uid) db1) = 1
           \<and> length (filter (\<lambda>x. user_id x = uid) db2) = 1
           \<and> (case fetchone uid db of
                 None \<Rightarrow> db1 = db @ [insert_row t1 uid a1 r1]
               | Some x \<Rightarrow>
                   fetchone uid db1 =
                     Some (x\<lparr>access_token := a1, refresh_token := r1, updated_at := Some t1\<rparr>))
           \<and> (\<forall>other. other \<noteq> uid \<longrightarrow> fetchone other db1 = fetchone other db))"
proof -
  let ?db1 = "update_or_create_user t1 uid a1 r1 db"
  let ?db2 = "update_or_create_user t2 uid a2 r2 ?db1"
  have u1: "unique_user_id ?db1"
    using assms by (rule unique_user_id_update)
  have f1: "fetchone uid ?db1 \<noteq> None"
    by (simp add: fetchone_update_same)
  have tokens: "get_access_token uid ?db2 = Inr a2 \<and> get_refresh_token uid ?db2 = Inr r2"
    by (simp add: get_access_token_def get_refresh_token_def fetchone_update_same
        insert_row_def split: option.split)
  have created: "get_created_at_time uid ?db2 = get_created_at_time uid ?db1"
    using f1 by (auto simp: get_created_at_time_def fetchone_update_same[of uid t2]
        split: option.split)
  have one1: "length (filter (\<lambda>x. user_id x = uid) ?db1) = 1"
    using assms by (rule one_row_after_update)
  have one2: "length (filter (\<lambda>x. user_id x = uid) ?db2) = 1"
    using u1 by (rule one_row_after_update)
  have shape: "(case fetchone uid db of
                 None \<Rightarrow> ?db1 = db @ [insert_row t1 uid a1 r1]
               | Some x \<Rightarrow>
                   fetchone uid ?db1 =
                     Some (x\<lparr>access_token := a1, refresh_token := r1, updated_at := Some t1\<rparr>))"
    by (simp add: update_absent fetchone_update_same split: option.split)
  have others: "\<forall>other. other \<noteq> uid \<longrightarrow> fetchone other ?db1 = fetchone other db"
    by (simp add: fetchone_update_other)
  from tokens created one1 one2 shape others show ?thesis
    unfolding Let_def by blast
qed

theorem update_or_create_user_twice_witness:
  "unique_user_id []
   \<and> get_access_token ''42''
       (update_or_create_user 20 ''42'' ''a2'' ''r2''
          (update_or_create_user 10 ''42'' ''a1'' ''r1'' [])) = Inr ''a2''
   \<and> get_refresh_token ''42''
       (update_or_create_user 20 ''42'' ''a2'' ''r2''
          (update_or_create_user 10 ''42'' ''a1'' ''r1'' [])) = Inr ''r2''
   \<and> get_created_at_time ''42''
       (update_or_create_user 20 ''42'' ''a2'' ''r2''
          (update_or_create_user 10 ''42'' ''a1'' ''r1'' [])) = Inr 10"
proof -
  have u: "unique_user_id []"
    by (simp add: unique_user_id_def)
  have c: "get_created_at_time ''42'' (update_or_create_user 10 ''42'' ''a1'' ''r1'' []) = Inr 10"
    by (simp add: get_created_at_time_def fetchone_def insert_row_def)
  from update_or_create_user_twice[OF u, of 10 "''42''" "''a1''" "''r1''" 20 "''a2''" "''r2''"] u c
  show ?thesis
    unfolding Let_def by simp
qed

text \<open>
  C5, as stated, fails: two upserts for the same \<^verbatim>\<open>user_id\<close> within the same second
  of the clock (here second 10) leave \<^verbatim>\<open>get_updated_at_time\<close> at the same value, so it
  does not strictly increase.
\<close>

theorem updated_at_same_second_counterexample:
  "get_updated_at_time ''42'' (update_or_create_user 10 ''42'' ''a1'' ''r1'' []) = Inr 10
   \<and> get_updated_at_time ''42''
       (update_or_create_user 10 ''42'' ''a2'' ''r2''
          (update_or_create_user 10 ''42'' ''a1'' ''r1'' [])) = Inr 10
   \<and> \<not> updated_at_advances ''42''
         (update_or_create_user 10 ''42'' ''a1'' ''r1'' [])
         (update_or_create_user 10 ''42'' ''a2'' ''r2''
            (update_or_create_user 10 ''42'' ''a1'' ''r1'' []))"
  by (simp add: updated_at_advances_def get_updated_at_time_def fetchone_def insert_row_def
      UPDATE_DT_do_update_set)

text \<open>
  C5, amended. Every upsert leaves \<^verbatim>\<open>updated_at\<close> at the clock's reading at that upsert
  (\<^verbatim>\<open>CURRENT_TIMESTAMP\<close>, in whole seconds). So across two successive upserts for the
  same \<^verbatim>\<open>user_id\<close>, at \<open>t1\<close> and then at \<open>t2\<close>, \<^verbatim>\<open>get_updated_at_time\<close> strictly increases
  exactly when \<open>t1 < t2\<close>. The first insert for a \<^verbatim>\<open>user_id\<close> sets both \<^verbatim>\<open>created_at\<close>
  and \<^verbatim>\<open>updated_at\<close> to the time of the insert; an upsert on an existing row leaves
  \<^verbatim>\<open>created_at\<close> as it was.
\<close>

theorem updated_at_is_time_of_upsert:
  "(let db1 = update_or_create_user t1 uid a1 r1 db;
        db2 = update_or_create_user t2 uid a2 r2 db1
    in get_updated_at_time uid db1 = Inr t1
     \<and> get_updated_at_time uid db2 = Inr t2
     \<and> updated_at_advances uid db1 db2 = (t1 < t2)
     \<and> (case fetchone uid db of
           None \<Rightarrow> fetchone uid db1 = Some (insert_row t1 uid a1 r1)
                  \<and> get_created_at_time uid db1 = Inr t1
         | Some x \<Rightarrow> get_created_at_time uid db1 = get_created_at_time uid db))"
  by (simp add: Let_def get_updated_at_time_update updated_at_advances_def
      get_created_at_time_def fetchone_update_same insert_row_def split: option.split)

theorem updated_at_is_time_of_upsert_witness:
  "updated_at_advances ''42''
     (update_or_create_user 10 ''42'' ''a1'' ''r1'' [])
     (update_or_create_user 11 ''42'' ''a2'' ''r2''
        (update_or_create_user 10 ''42'' ''a1'' ''r1'' []))
   \<and> get_updated_at_time ''42''
       (update_or_create_user 11 ''42'' ''a2'' ''r2''
          (update_or_create_user 10 ''42'' ''a1'' ''r1'' [])) = Inr 11"
  using updated_at_is_time_of_upsert[of 10 "''42''" "''a1''" "''r1''" "[]" 11 "''a2''" "''r2''"]
  unfolding Let_def by simp

text \<open>
  C6. For a \<^verbatim>\<open>user_id\<close> with no row, \<^verbatim>\<open>get_access_token\<close> and \<^verbatim>\<open>get_refresh_token\<close>
  raise \<^verbatim>\<open>UserNotFoundError\<close>; \<^verbatim>\<open>get_created_at_time\<close> does not: it raises
  \<^verbatim>\<open>TypeError\<close>, from unpacking the \<^verbatim>\<open>None\<close> that \<^verbatim>\<open>fetchone()\<close> returned.
\<close>

theorem unknown_user_errors:
  assumes "fetchone uid db = None"
  shows "get_access_token uid db = Inl UserNotFoundError
       \<and> get_refresh_token uid db = Inl UserNotFoundError
       \<and> get_created_at_time uid db = Inl TypeError"
  using assms by (simp add: get_access_token_def get_refresh_token_def get_created_at_time_def)

theorem unknown_user_errors_witness:
  "fetchone ''42'' [] = None
   \<and> get_access_token ''42'' [] = Inl UserNotFoundError
   \<and> get_refresh_token ''42'' [] = Inl UserNotFoundError
   \<and> get_created_at_time ''42'' [] = Inl TypeError
   \<and> get_created_at_time ''42'' [] \<noteq> Inl UserNotFoundError"
  using unknown_user_errors[of "''42''" "[]"] by (simp add: fetchone_def)

text \<open>
  C1. \<^verbatim>\<open>refresh_access_token\<close>, for every user. With no row for the user,
  \<^verbatim>\<open>get_refresh_token\<close> raises, nothing is sent to the refresh endpoint and the world
  is unchanged. With a stored refresh token \<open>rt\<close>, exactly \<open>rt\<close> is sent to the
  endpoint. When the endpoint raises, the call raises the same exception and the table
  is the old one. When the endpoint answers with a pair, the call returns the new
  access token and the table is the old one after one \<^verbatim>\<open>update_or_create_user\<close> with
  both tokens of the pair, so that the store then returns the new access token and
  the new refresh token.
\<close>

theorem refresh_access_token_all_or_nothing:
  "(case get_refresh_token uid (twitch_tokens w) of
      Inl e \<Rightarrow> refresh_access_token refresh_auth_token now uid w = (Inl e, w)
    | Inr rt \<Rightarrow>
        (case refresh_auth_token rt of
           Inl e \<Rightarrow>
             refresh_access_token refresh_auth_token now uid w =
               (Inl e, w\<lparr>refresh_requests := refresh_requests w @ [rt]\<rparr>)
         | Inr res \<Rightarrow>
             refresh_access_token refresh_auth_token now uid w =
               (Inr (new_access_token res),
                w\<lparr>refresh_requests := refresh_requests w @ [rt],
                  twitch_tokens :=
                    update_or_create_user now uid (new_access_token res)
                      (new_refresh_token res) (twitch_tokens w)\<rparr>)
           \<and> get_access_token uid
                 (update_or_create_user now uid (new_access_token res)
                    (new_refresh_token res) (twitch_tokens w)) = Inr (new_access_token res)
           \<and> get_refresh_token uid
                 (update_or_create_user now uid (new_access_token res)
                    (new_refresh_token res) (twitch_tokens w)) = Inr (new_refresh_token res)))"
  by (auto simp: refresh_access_token_def Let_def get_access_token_def get_refresh_token_def
      fetchone_update_same insert_row_def split: sum.split option.split)

theorem refresh_access_token_all_or_nothing_witness:
  "get_refresh_token ''42'' (twitch_tokens world_one_user) = Inr ''r1''
   \<and> refresh_access_token endpoint_ok 20 ''42'' world_one_user =
       (Inr ''a2'',
        world_one_user
          \<lparr>refresh_requests := [''r1''],
           twitch_tokens :=
             update_or_create_user 20 ''42'' ''a2'' ''r2'' (twitch_tokens world_one_user)\<rparr>)
   \<and> get_refresh_token ''42''
       (update_or_create_user 20 ''42'' ''a2'' ''r2'' (twitch_tokens world_one_user)) = Inr ''r2''
   \<and> refresh_access_token endpoint_down 20 ''42'' world_one_user =
       (Inl (OtherError ''HTTPError''), world_one_user\<lparr>refresh_requests := [''r1'']\<rparr>)
   \<and> twitch_tokens (snd (refresh_access_token endpoint_down 20 ''42'' world_one_user)) =
       twitch_tokens world_one_user"
proof -
  have h: "get_refresh_token ''42'' (twitch_tokens world_one_user) = Inr ''r1''"
    by (simp add: world_one_user_def get_refresh_token_def fetchone_def insert_row_def)
  have e: "refresh_requests world_one_user = []"
    by (simp add: world_one_user_def)
  have ok: "endpoint_ok ''r1'' = Inr \<lparr>new_access_token = ''a2'', new_refresh_token = ''r2''\<rparr>"
    by (simp add: endpoint_ok_def)
  have down: "endpoint_down ''r1'' = Inl (OtherError ''HTTPError'')"
    by (simp add: endpoint_down_def)
  have t1: "refresh_access_token endpoint_ok 20 ''42'' world_one_user =
       (Inr ''a2'',
        world_one_user
          \<lparr>refresh_requests := [''r1''],
           twitch_tokens :=
             update_or_create_user 20 ''42'' ''a2'' ''r2'' (twitch_tokens world_one_user)\<rparr>)
     \<and> get_refresh_token ''42''
         (update_or_create_user 20 ''42'' ''a2'' ''r2'' (twitch_tokens world_one_user)) = Inr ''r2''"
    using refresh_access_token_all_or_nothing
      [where uid = "''42''" and w = world_one_user and refresh_auth_token = endpoint_ok
         and now = 20]
    by (simp add: h ok e)
  have t2: "refresh_access_token endpoint_down 20 ''42'' world_one_user =
       (Inl (OtherError ''HTTPError''), world_one_user\<lparr>refresh_requests := [''r1'']\<rparr>)"
    using refresh_access_token_all_or_nothing
      [where uid = "''42''" and w = world_one_user and refresh_auth_token = endpoint_down
         and now = 20]
    by (simp add: h down e)
  show ?thesis
    using h t1 by (simp add: t2)
qed

section \<open>Properties of the EventSub thread\<close>

lemma list_all_update:
  "list_all P xs \<Longrightarrow> P y \<Longrightarrow> list_all P (xs[i := y])"
  by (induction xs arbitrary: i) (auto split: nat.splits)

lemma list_all_nth:
  "list_all P xs \<Longrightarrow> i < length xs \<Longrightarrow> P (xs ! i)"
  by (simp add: list_all_length)

lemma request_all_ok:
  "list_all (\<lambda>r. tw r = None) rs \<Longrightarrow> request_all tw rs = (rs, None)"
  by (induction rs) auto

lemma request_all_calls:
  "\<exists>k\<le>length rs. fst (request_all tw rs) = take k rs"
proof (induction rs)
  case Nil
  then show ?case by simp
next
  case (Cons r rs)
  then obtain k where k: "k \<le> length rs" "fst (request_all tw rs) = take k rs"
    by blast
  show ?case
  proof (cases "tw r")
    case None
    then have "fst (request_all tw (r # rs)) = take (Suc k) (r # rs)"
      using k(2) by (cases "request_all tw rs") simp
    then show ?thesis
      using k(1) by (intro exI[of _ "Suc k"]) simp
  next
    case (Some e)
    then have "fst (request_all tw (r # rs)) = take (Suc 0) (r # rs)"
      by simp
    then show ?thesis
      by (intro exI[of _ "Suc 0"]) simp
  qed
qed

lemma request_all_stops_at_failure:
  "request_all twitch_down [request_of sid sub_follow, request_of sid sub_cheer] =
     ([request_of sid sub_follow], Some (OtherError ''HTTPError''))"
  by (simp add: twitch_down_def)

lemma handle_json_message_frame:
  "snd (handle_json_message m s) = s\<lparr>requests := requests (snd (handle_json_message m s))\<rparr>"
  by (simp add: handle_json_message_def split: sum.split prod.split)

lemma handle_raw_message_frame:
  "snd (handle_raw_message loads m s) = s\<lparr>requests := requests (snd (handle_raw_message loads m s))\<rparr>"
  using handle_json_message_frame
  by (simp add: handle_raw_message_def split: message.split sum.split)

lemma stop_inv_cong:
  "thread s' = thread s \<Longrightarrow> bg s' = bg s \<Longrightarrow> stop_inv s' p = stop_inv s p"
  by (simp add: stop_inv_def thread_alive_def split: stop_pc.split option.split)

lemma client_inv_cong:
  "client s' = client s \<Longrightarrow> bg s' = bg s \<Longrightarrow> client_inv s' = client_inv s"
  by (simp add: client_inv_def split: bg_pc.split)

lemma stop_inv_upd:
  "stop_inv (s\<lparr>subscriptions := a\<rparr>) = stop_inv s"
  "stop_inv (s\<lparr>should_stop := b\<rparr>) = stop_inv s"
  "stop_inv (s\<lparr>client := c\<rparr>) = stop_inv s"
  "stop_inv (s\<lparr>sockets := d\<rparr>) = stop_inv s"
  "stop_inv (s\<lparr>closed := e\<rparr>) = stop_inv s"
  "stop_inv (s\<lparr>requests := f\<rparr>) = stop_inv s"
  "stop_inv (s\<lparr>stops := g\<rparr>) = stop_inv s"
  by (rule ext, rule stop_inv_cong, simp, simp)+

lemma client_inv_upd:
  "client_inv (s\<lparr>subscriptions := a\<rparr>) = client_inv s"
  "client_inv (s\<lparr>should_stop := b\<rparr>) = client_inv s"
  "client_inv (s\<lparr>thread := c\<rparr>) = client_inv s"
  "client_inv (s\<lparr>sockets := d\<rparr>) = client_inv s"
  "client_inv (s\<lparr>closed := e\<rparr>) = client_inv s"
  "client_inv (s\<lparr>requests := f\<rparr>) = client_inv s"
  "client_inv (s\<lparr>stops := g\<rparr>) = client_inv s"
  by (rule client_inv_cong, simp, simp)+

lemma stop_inv_dies:
  "thread s' = thread s \<Longrightarrow> (thread_alive s' \<Longrightarrow> thread_alive s) \<Longrightarrow> stop_inv s p \<Longrightarrow> stop_inv s' p"
  by (auto simp: stop_inv_def split: stop_pc.splits option.splits)

lemma stop_inv_start:
  "\<not> thread_alive s \<Longrightarrow> stop_inv s p \<Longrightarrow>
     stop_inv (s\<lparr>thread := Some (case thread s of None \<Rightarrow> 0 | Some k \<Rightarrow> Suc k), bg := b\<rparr>) p"
  by (auto simp: stop_inv_def split: stop_pc.splits option.splits)

lemma list_all_mono: "list_all P xs \<Longrightarrow> (\<And>x. P x \<Longrightarrow> Q x) \<Longrightarrow> list_all Q xs"
  by (induction xs) auto

lemma mgr_inv_init: "mgr_inv (init tw)"
  by (simp add: mgr_inv_def init_def client_inv_def)

lemma mgr_inv_add_subscription:
  "mgr_inv s \<Longrightarrow> mgr_inv (step loads (Add_Subscription t v c) s)"
  by (cases "thread s") (simp_all add: mgr_inv_def step_def add_subscription_def stop_inv_upd client_inv_upd)

lemma mgr_inv_start_thread:
  assumes "mgr_inv s"
  shows "mgr_inv (step loads Start_Thread s)"
proof (cases "subscriptions s = [] \<or> thread_alive s")
  case True
  then show ?thesis using assms by (auto simp: step_def start_thread_def)
next
  case False
  then have dead: "\<not> thread_alive s" and subs: "subscriptions s \<noteq> []" by auto
  let ?s' = "s\<lparr>thread := Some (case thread s of None \<Rightarrow> 0 | Some k \<Rightarrow> Suc k), bg := Create_First_Lock\<rparr>"
  have st: "step loads Start_Thread s = ?s'"
    using False by (simp add: step_def start_thread_def)
  have cl: "client s = None"
    using assms dead
    by (auto simp: mgr_inv_def client_inv_def thread_alive_def split: option.splits bg_pc.splits)
  have "list_all (stop_inv ?s') (stops s)"
    using assms dead by (auto simp: mgr_inv_def intro: list_all_mono stop_inv_start)
  then show ?thesis
    using assms cl subs unfolding st by (simp add: mgr_inv_def client_inv_def)
qed

lemma mgr_inv_stop_thread:
  "mgr_inv s \<Longrightarrow> mgr_inv (step loads Stop_Thread s)"
  by (simp add: mgr_inv_def step_def stop_thread_enter_def stop_inv_upd client_inv_upd stop_inv_def)

lemma mgr_inv_stop_continue:
  assumes "mgr_inv s"
  shows "mgr_inv (step loads (Stop_Continue i) s)"
proof (cases "i < length (stops s)")
  case False
  then show ?thesis using assms by (simp add: step_def stop_thread_continue_def)
next
  case True
  have all: "list_all (stop_inv s) (stops s)" and ss: "should_stop s"
    using assms True by (auto simp: mgr_inv_def)
  have here: "stop_inv s (stops s ! i)"
    using all True by (rule list_all_nth)
  show ?thesis
  proof (cases "stops s ! i")
    case (Stop_Close c)
    then show ?thesis using assms True
      by (simp add: step_def stop_thread_continue_def mgr_inv_def stop_inv_upd client_inv_upd
          list_all_update stop_inv_def)
  next
    case Stop_Second_Lock
    then show ?thesis using assms True
      by (auto simp: step_def stop_thread_continue_def mgr_inv_def stop_inv_upd client_inv_upd
          stop_inv_def intro!: list_all_update split: option.splits)
  next
    case (Stop_Join k)
    then show ?thesis using assms True here
      by (auto simp: step_def stop_thread_continue_def mgr_inv_def stop_inv_upd client_inv_upd
          stop_inv_def intro!: list_all_update split: option.splits)
  next
    case (Stop_Returned k)
    then show ?thesis using assms True
      by (simp add: step_def stop_thread_continue_def)
  qed
qed


lemma mgr_inv_bg_frame:
  assumes "mgr_inv s" and "thread_alive s"
    and "thread s' = thread s" and "subscriptions s' = subscriptions s"
    and "stops s' = stops s" and "should_stop s' = should_stop s"
    and "client_inv s'"
  shows "mgr_inv s'"
proof -
  have "list_all (stop_inv s') (stops s)"
    using assms(1,2,3) by (auto simp: mgr_inv_def intro: list_all_mono stop_inv_dies)
  moreover have "thread s \<noteq> None"
    using assms(2) by (auto simp: thread_alive_def split: option.splits)
  ultimately show ?thesis
    using assms by (auto simp: mgr_inv_def)
qed

lemma mgr_inv_bg_step:
  assumes "mgr_inv s"
  shows "mgr_inv (step loads Bg_Step s)"
proof (cases "thread_alive s")
  case False
  then show ?thesis using assms by (simp add: step_def)
next
  case True
  have ci: "client_inv s" using assms by (simp add: mgr_inv_def)
  have "mgr_inv (bg_step s)"
  proof (rule mgr_inv_bg_frame[OF assms True])
    show "client_inv (bg_step s)"
      using ci by (cases "bg s") (auto simp: bg_step_def client_inv_def split: option.splits)
  qed (cases "bg s"; simp add: bg_step_def split: option.splits)+
  then show ?thesis using True by (simp add: step_def)
qed

lemma mgr_inv_connect_returns:
  assumes "mgr_inv s"
  shows "mgr_inv (step loads Connect_Returns s)"
proof (cases "thread_alive s")
  case False
  then show ?thesis using assms by (simp add: step_def)
next
  case True
  have ci: "client_inv s" using assms by (simp add: mgr_inv_def)
  have "mgr_inv (connect_returns s)"
  proof (rule mgr_inv_bg_frame[OF assms True])
    show "client_inv (connect_returns s)"
      using ci by (cases "bg s") (auto simp: connect_returns_def client_inv_def)
  qed (cases "bg s"; simp add: connect_returns_def)+
  then show ?thesis using True by (simp add: step_def)
qed

lemma mgr_inv_connect_raises:
  assumes "mgr_inv s"
  shows "mgr_inv (step loads (Connect_Raises e) s)"
proof (cases "thread_alive s")
  case False
  then show ?thesis using assms by (simp add: step_def)
next
  case True
  have ci: "client_inv s" using assms by (simp add: mgr_inv_def)
  have "mgr_inv (connect_raises e s)"
  proof (rule mgr_inv_bg_frame[OF assms True])
    show "client_inv (connect_raises e s)"
      using ci by (cases "bg s") (auto simp: connect_raises_def client_inv_def)
  qed (cases "bg s"; simp add: connect_raises_def)+
  then show ?thesis using True by (simp add: step_def)
qed

lemma mgr_inv_recv_raises:
  assumes "mgr_inv s"
  shows "mgr_inv (step loads (Recv_Raises e) s)"
proof (cases "thread_alive s")
  case False
  then show ?thesis using assms by (simp add: step_def)
next
  case True
  have ci: "client_inv s" using assms by (simp add: mgr_inv_def)
  have "mgr_inv (recv_raises e s)"
  proof (rule mgr_inv_bg_frame[OF assms True])
    show "client_inv (recv_raises e s)"
      using ci by (cases "bg s") (auto simp: recv_raises_def client_inv_def)
  qed (cases "bg s"; simp add: recv_raises_def)+
  then show ?thesis using True by (simp add: step_def)
qed

lemma recv_returns_eq:
  "recv_returns loads m s =
     (case bg s of
        Recv c \<Rightarrow>
          (case fst (handle_raw_message loads m s) of
             None \<Rightarrow> s\<lparr>requests := requests (snd (handle_raw_message loads m s))\<rparr>
           | Some e \<Rightarrow> s\<lparr>requests := requests (snd (handle_raw_message loads m s)),
                         bg := Finally_Close c (Some e)\<rparr>)
      | _ \<Rightarrow> s)"
proof -
  obtain r s' where h: "handle_raw_message loads m s = (r, s')"
    by (cases "handle_raw_message loads m s")
  have "s' = s\<lparr>requests := requests s'\<rparr>"
    using handle_raw_message_frame[of loads m s] h by simp
  then show ?thesis
    using h by (cases "bg s"; cases r) (auto simp: recv_returns_def)
qed

lemma mgr_inv_recv_returns:
  assumes "mgr_inv s"
  shows "mgr_inv (step loads (Recv_Returns m) s)"
proof (cases "thread_alive s")
  case False
  then show ?thesis using assms by (simp add: step_def)
next
  case True
  have ci: "client_inv s" using assms by (simp add: mgr_inv_def)
  have "mgr_inv (recv_returns loads m s)"
  proof (rule mgr_inv_bg_frame[OF assms True])
    show "client_inv (recv_returns loads m s)"
      using ci by (cases "bg s") (auto simp: recv_returns_eq client_inv_def split: option.splits)
  qed (cases "bg s"; simp add: recv_returns_eq split: option.splits)+
  then show ?thesis using True by (simp add: step_def)
qed

lemma mgr_inv_step: "mgr_inv s \<Longrightarrow> mgr_inv (step loads ev s)"
  by (cases ev)
    (simp_all only: mgr_inv_add_subscription mgr_inv_start_thread mgr_inv_stop_thread
      mgr_inv_stop_continue mgr_inv_bg_step mgr_inv_connect_returns mgr_inv_connect_raises
      mgr_inv_recv_returns mgr_inv_recv_raises)

lemma mgr_inv_run: "mgr_inv s \<Longrightarrow> mgr_inv (run loads evs s)"
  by (induction evs arbitrary: s) (simp_all add: mgr_inv_step)

lemma mgr_inv_reachable: "mgr_inv (run loads evs (init tw))"
  by (rule mgr_inv_run) (rule mgr_inv_init)

lemma should_stop_step: "should_stop s \<Longrightarrow> should_stop (step loads ev s)"
proof (cases ev)
  case (Recv_Returns m)
  assume "should_stop s"
  then show ?thesis
    unfolding Recv_Returns
    by (cases "bg s") (auto simp: step_def recv_returns_eq split: option.splits)
qed (auto simp: step_def add_subscription_def start_thread_def stop_thread_enter_def
      stop_thread_continue_def bg_step_def connect_returns_def connect_raises_def
      recv_raises_def split: stop_pc.splits bg_pc.splits option.splits)

lemma should_stop_run: "should_stop s \<Longrightarrow> should_stop (run loads evs s)"
  by (induction evs arbitrary: s) (simp_all add: should_stop_step)


lemma request_of_fields:
  "type (request_of sid sub) = type sub \<and> version (request_of sid sub) = version sub
   \<and> condition (request_of sid sub) = condition sub
   \<and> transport (request_of sid sub) = \<lparr>transport_method = ''websocket'', session_id = sid\<rparr>"
  by (simp add: request_of_def)

lemma request_all_first_failure:
  "i < length rs \<Longrightarrow> list_all (\<lambda>r. tw r = None) (take i rs) \<Longrightarrow> tw (rs ! i) = Some e \<Longrightarrow>
     request_all tw rs = (take (Suc i) rs, Some e)"
proof (induction rs arbitrary: i)
  case Nil
  then show ?case by simp
next
  case (Cons r rs)
  show ?case
  proof (cases i)
    case 0
    then show ?thesis using Cons.prems by simp
  next
    case (Suc j)
    then have "request_all tw rs = (take (Suc j) rs, Some e)"
      using Cons.prems by (intro Cons.IH) simp_all
    moreover have "tw r = None"
      using Cons.prems(2) Suc by simp
    ultimately show ?thesis
      using Suc by simp
  qed
qed

lemma two_subscriptions_eq:
  "two_subscriptions = (init twitch_ok)\<lparr>subscriptions := [sub_follow, sub_cheer]\<rparr>"
  by (simp add: two_subscriptions_def step_def add_subscription_def init_def sub_follow_def
      sub_cheer_def)

lemma two_subscriptions_down_eq:
  "two_subscriptions_down = (init twitch_down)\<lparr>subscriptions := [sub_follow, sub_cheer]\<rparr>"
  by (simp add: two_subscriptions_down_def step_def add_subscription_def init_def sub_follow_def
      sub_cheer_def)

lemma welcome_S1_is_welcome:
  "metadata_message_type welcome_S1 = Inr (JString ''session_welcome'')
   \<and> payload_session_id welcome_S1 = Inr (JString ''S1'')"
  by (simp add: metadata_message_type_def payload_session_id_def welcome_S1_def)

text \<open>
  C2, as stated, fails: with two registered subscriptions and an API client that
  raises, a welcome message leads to one call, not two. The first call raises, the
  exception leaves \<^verbatim>\<open>_handle_json_message\<close>, and the second subscription gets no
  call.
\<close>

theorem welcome_one_call_when_client_raises_counterexample:
  "metadata_message_type welcome_S1 = Inr (JString ''session_welcome'')
   \<and> payload_session_id welcome_S1 = Inr (JString ''S1'')
   \<and> length (subscriptions two_subscriptions_down) = 2
   \<and> requests two_subscriptions_down = []
   \<and> fst (handle_json_message welcome_S1 two_subscriptions_down) = Some (OtherError ''HTTPError'')
   \<and> requests (snd (handle_json_message welcome_S1 two_subscriptions_down)) =
       [request_of (JString ''S1'') sub_follow]
   \<and> length (requests (snd (handle_json_message welcome_S1 two_subscriptions_down))) = 1"
  by (simp add: welcome_S1_is_welcome handle_json_message_def two_subscriptions_down_eq init_def
      twitch_down_def)

text \<open>
  C2, amended. A message whose \<^verbatim>\<open>metadata.message_type\<close> is \<^verbatim>\<open>session_welcome\<close> and
  whose \<^verbatim>\<open>payload.session.id\<close> is \<open>sid\<close>, handled by an object with \<open>n\<close> registered
  subscriptions. When each of the calls of \<^verbatim>\<open>request_eventsub_subscription\<close> returns,
  exactly \<open>n\<close> calls are made, the \<open>i\<close>-th with the type, version and condition of the
  \<open>i\<close>-th subscription and the transport
  \<^verbatim>\<open>{"method": "websocket", "session_id": sid}\<close>, and handling returns. When the call
  for the \<open>i\<close>-th subscription is the first that raises, the calls made are those for
  the subscriptions up to and including the \<open>i\<close>-th, the later subscriptions get no
  call, and handling raises the same exception.
\<close>

theorem welcome_requests_each_subscription:
  assumes "metadata_message_type m = Inr (JString ''session_welcome'')"
    and "payload_session_id m = Inr sid"
  shows "(list_all (\<lambda>sub. twitch s (request_of sid sub) = None) (subscriptions s) \<longrightarrow>
            handle_json_message m s =
              (None, s\<lparr>requests := requests s @ map (request_of sid) (subscriptions s)\<rparr>))
       \<and> (\<forall>i e. i < length (subscriptions s)
               \<and> list_all (\<lambda>sub. twitch s (request_of sid sub) = None) (take i (subscriptions s))
               \<and> twitch s (request_of sid (subscriptions s ! i)) = Some e \<longrightarrow>
            handle_json_message m s =
              (Some e,
               s\<lparr>requests := requests s @ map (request_of sid) (take (Suc i) (subscriptions s))\<rparr>))
       \<and> length (map (request_of sid) (subscriptions s)) = length (subscriptions s)
       \<and> (\<forall>i. i < length (subscriptions s) \<longrightarrow>
             type (map (request_of sid) (subscriptions s) ! i) = type (subscriptions s ! i)
           \<and> version (map (request_of sid) (subscriptions s) ! i) = version (subscriptions s ! i)
           \<and> condition (map (request_of sid) (subscriptions s) ! i) = condition (subscriptions s ! i)
           \<and> transport (map (request_of sid) (subscriptions s) ! i) =
               \<lparr>transport_method = ''websocket'', session_id = sid\<rparr>)"
proof -
  let ?rs = "map (request_of sid) (subscriptions s)"
  have h: "handle_json_message m s =
             (case request_all (twitch s) ?rs of (cs, res) \<Rightarrow> (res, s\<lparr>requests := requests s @ cs\<rparr>))"
    using assms by (simp add: handle_json_message_def)
  have ok: "handle_json_message m s = (None, s\<lparr>requests := requests s @ ?rs\<rparr>)"
    if "list_all (\<lambda>sub. twitch s (request_of sid sub) = None) (subscriptions s)"
  proof -
    have "list_all (\<lambda>r. twitch s r = None) ?rs"
      using that by (simp add: list_all_iff)
    then have "request_all (twitch s) ?rs = (?rs, None)"
      by (rule request_all_ok)
    then show ?thesis
      by (simp add: h)
  qed
  have fail: "handle_json_message m s =
              (Some e,
               s\<lparr>requests := requests s @ map (request_of sid) (take (Suc i) (subscriptions s))\<rparr>)"
    if "i < length (subscriptions s)"
      and "list_all (\<lambda>sub. twitch s (request_of sid sub) = None) (take i (subscriptions s))"
      and "twitch s (request_of sid (subscriptions s ! i)) = Some e" for i e
  proof -
    have a: "i < length ?rs"
      using that(1) by simp
    have b: "list_all (\<lambda>r. twitch s r = None) (take i ?rs)"
      using that(2) by (simp add: list_all_iff take_map)
    have c: "twitch s (?rs ! i) = Some e"
      using that(1,3) by simp
    have "request_all (twitch s) ?rs = (take (Suc i) ?rs, Some e)"
      using a b c by (rule request_all_first_failure)
    then show ?thesis
      by (simp add: h take_map)
  qed
  have fields: "\<forall>i. i < length (subscriptions s) \<longrightarrow>
             type (?rs ! i) = type (subscriptions s ! i)
           \<and> version (?rs ! i) = version (subscriptions s ! i)
           \<and> condition (?rs ! i) = condition (subscriptions s ! i)
           \<and> transport (?rs ! i) = \<lparr>transport_method = ''websocket'', session_id = sid\<rparr>"
    by (simp add: request_of_fields)
  have A: "list_all (\<lambda>sub. twitch s (request_of sid sub) = None) (subscriptions s) \<longrightarrow>
            handle_json_message m s = (None, s\<lparr>requests := requests s @ ?rs\<rparr>)"
    using ok by blast
  have B: "\<forall>i e. i < length (subscriptions s)
               \<and> list_all (\<lambda>sub. twitch s (request_of sid sub) = None) (take i (subscriptions s))
               \<and> twitch s (request_of sid (subscriptions s ! i)) = Some e \<longrightarrow>
            handle_json_message m s =
              (Some e,
               s\<lparr>requests := requests s @ map (request_of sid) (take (Suc i) (subscriptions s))\<rparr>)"
    using fail by blast
  have C: "length ?rs = length (subscriptions s)"
    by simp
  show ?thesis
    by (rule conjI[OF A conjI[OF B conjI[OF C fields]]])
qed

theorem welcome_requests_each_subscription_witness:
  "metadata_message_type welcome_S1 = Inr (JString ''session_welcome'')
   \<and> payload_session_id welcome_S1 = Inr (JString ''S1'')
   \<and> list_all (\<lambda>sub. twitch two_subscriptions (request_of (JString ''S1'') sub) = None)
        (subscriptions two_subscriptions)
   \<and> handle_json_message welcome_S1 two_subscriptions =
       (None,
        two_subscriptions
          \<lparr>requests :=
             [\<lparr>type = ''channel.follow'', version = ''2'',
               condition = JObject [(''broadcaster_user_id'', JString ''42'')],
               transport = \<lparr>transport_method = ''websocket'', session_id = JString ''S1''\<rparr>\<rparr>,
              \<lparr>type = ''channel.cheer'', version = ''1'',
               condition = JObject [(''broadcaster_user_id'', JString ''42'')],
               transport = \<lparr>transport_method = ''websocket'', session_id = JString ''S1''\<rparr>\<rparr>]\<rparr>)
   \<and> twitch two_subscriptions_down
        (request_of (JString ''S1'') (subscriptions two_subscriptions_down ! 0)) =
       Some (OtherError ''HTTPError'')
   \<and> handle_json_message welcome_S1 two_subscriptions_down =
       (Some (OtherError ''HTTPError''),
        two_subscriptions_down\<lparr>requests := [request_of (JString ''S1'') sub_follow]\<rparr>)"
proof -
  note w = welcome_S1_is_welcome
  have a: "metadata_message_type welcome_S1 = Inr (JString ''session_welcome'')"
    using w by simp
  have b: "payload_session_id welcome_S1 = Inr (JString ''S1'')"
    using w by simp
  have c: "list_all (\<lambda>sub. twitch two_subscriptions (request_of (JString ''S1'') sub) = None)
        (subscriptions two_subscriptions)"
    by (simp add: two_subscriptions_eq init_def twitch_ok_def)
  have d: "twitch two_subscriptions_down
        (request_of (JString ''S1'') (subscriptions two_subscriptions_down ! 0)) =
       Some (OtherError ''HTTPError'')"
    by (simp add: two_subscriptions_down_eq init_def twitch_down_def)
  have d0: "0 < length (subscriptions two_subscriptions_down)
      \<and> list_all (\<lambda>sub. twitch two_subscriptions_down (request_of (JString ''S1'') sub) = None)
          (take 0 (subscriptions two_subscriptions_down))"
    by (simp add: two_subscriptions_down_eq)
  have r1: "handle_json_message welcome_S1 two_subscriptions =
              (None, two_subscriptions
                 \<lparr>requests := requests two_subscriptions
                    @ map (request_of (JString ''S1'')) (subscriptions two_subscriptions)\<rparr>)"
    using welcome_requests_each_subscription[OF a b, of two_subscriptions] c by blast
  have r2: "handle_json_message welcome_S1 two_subscriptions_down =
              (Some (OtherError ''HTTPError''),
               two_subscriptions_down
                 \<lparr>requests := requests two_subscriptions_down
                    @ map (request_of (JString ''S1''))
                        (take (Suc 0) (subscriptions two_subscriptions_down))\<rparr>)"
    using welcome_requests_each_subscription[OF a b, of two_subscriptions_down] d d0 by blast
  have e1: "requests two_subscriptions
             @ map (request_of (JString ''S1'')) (subscriptions two_subscriptions) =
            [\<lparr>type = ''channel.follow'', version = ''2'',
               condition = JObject [(''broadcaster_user_id'', JString ''42'')],
               transport = \<lparr>transport_method = ''websocket'', session_id = JString ''S1''\<rparr>\<rparr>,
              \<lparr>type = ''channel.cheer'', version = ''1'',
               condition = JObject [(''broadcaster_user_id'', JString ''42'')],
               transport = \<lparr>transport_method = ''websocket'', session_id = JString ''S1''\<rparr>\<rparr>]"
    by (simp add: two_subscriptions_eq init_def request_of_def sub_follow_def sub_cheer_def)
  have e2: "requests two_subscriptions_down
             @ map (request_of (JString ''S1''))
                 (take (Suc 0) (subscriptions two_subscriptions_down)) =
            [request_of (JString ''S1'') sub_follow]"
    by (simp add: two_subscriptions_down_eq init_def)
  show ?thesis
    using a b c d r1 r2 unfolding e1 e2 by simp
qed

lemma thread_step: "thread s \<noteq> None \<Longrightarrow> thread (step loads ev s) \<noteq> None"
proof (cases ev)
  case (Recv_Returns m)
  assume "thread s \<noteq> None"
  then show ?thesis
    unfolding Recv_Returns
    by (cases "bg s") (auto simp: step_def recv_returns_eq split: option.splits)
qed (auto simp: step_def add_subscription_def start_thread_def stop_thread_enter_def
      stop_thread_continue_def bg_step_def connect_returns_def connect_raises_def
      recv_raises_def split: stop_pc.splits bg_pc.splits option.splits)

lemma thread_run: "thread s \<noteq> None \<Longrightarrow> thread (run loads evs s) \<noteq> None"
proof (induction evs arbitrary: s)
  case Nil
  then show ?case by simp
next
  case (Cons ev evs)
  from Cons.prems have "thread (step loads ev s) \<noteq> None"
    by (rule thread_step)
  then have "thread (run loads evs (step loads ev s)) \<noteq> None"
    by (rule Cons.IH)
  then show ?case by simp
qed

text \<open>
  C8. While \<^verbatim>\<open>_thread\<close> is \<^verbatim>\<open>None\<close>, \<^verbatim>\<open>add_subscription\<close> appends the subscription.
  Once a thread has been started, whatever has happened since, it raises
  \<^verbatim>\<open>TypeError\<close> (from calling \<^verbatim>\<open>NotImplemented\<close>), not an error of the class the
  message in the source announces, and appends nothing.
\<close>

theorem add_subscription_after_start:
  "(case thread s of
      None \<Rightarrow>
        add_subscription t v c s =
          Inr (s\<lparr>subscriptions := subscriptions s @ [\<lparr>type = t, version = v, condition = c\<rparr>]\<rparr>)
    | Some k \<Rightarrow> add_subscription t v c s = Inl TypeError)
   \<and> add_subscription t v c
       (run loads evs (run loads [Add_Subscription t0 v0 c0, Start_Thread] (init tw))) =
       Inl TypeError"
proof -
  have "thread (run loads [Add_Subscription t0 v0 c0, Start_Thread] (init tw)) \<noteq> None"
    by (simp add: add_subscription_def init_def step_def start_thread_def thread_alive_def)
  then have "thread (run loads evs (run loads [Add_Subscription t0 v0 c0, Start_Thread] (init tw))) \<noteq> None"
    by (rule thread_run)
  then show ?thesis
    by (simp add: add_subscription_def split: option.split)
qed

lemma connected_eq:
  "run loads connected (init tw) =
     \<lparr>twitch = tw,
      subscriptions = [\<lparr>type = ''channel.follow'', version = ''2'', condition = JNull\<rparr>],
      thread = Some 0, should_stop = False, client = Some 0, bg = Recv 0, sockets = Suc 0,
      closed = {}, requests = [], stops = []\<rparr>"
  by (simp add: connected_def step_def add_subscription_def start_thread_def thread_alive_def
      bg_step_def connect_returns_def init_def)

lemma bg_alive: "mgr_inv s \<Longrightarrow> bg s \<noteq> Returned \<Longrightarrow> (\<And>e. bg s \<noteq> Raised e) \<Longrightarrow> thread_alive s"
  by (cases "thread s"; cases "bg s") (auto simp: mgr_inv_def thread_alive_def)

text \<open>
  C7, as stated, fails: after a \<^verbatim>\<open>bytes\<close> message the background thread is not alive
  any more. It has ended with the \<^verbatim>\<open>TypeError\<close>.
\<close>

theorem binary_message_ends_thread_counterexample:
  "thread_alive (run loads_example connected (init twitch_ok))
   \<and> bg (run loads_example connected (init twitch_ok)) = Recv 0
   \<and> bg (run loads_example (connected @ [Recv_Returns (Binary [1, 2]), Bg_Step, Bg_Step])
          (init twitch_ok)) = Raised TypeError
   \<and> \<not> thread_alive
         (run loads_example (connected @ [Recv_Returns (Binary [1, 2]), Bg_Step, Bg_Step])
            (init twitch_ok))"
  by (simp add: connected_def step_def add_subscription_def start_thread_def thread_alive_def
      bg_step_def connect_returns_def init_def recv_returns_def handle_raw_message_def)

text \<open>
  C7, amended. In every reachable state in which the thread waits in \<^verbatim>\<open>recv\<close> on
  socket \<open>c\<close>, a \<^verbatim>\<open>bytes\<close> message makes \<^verbatim>\<open>_handle_raw_message\<close> raise \<^verbatim>\<open>TypeError\<close>
  without any call to the API client. Nothing catches it: it leaves the receive loop,
  the \<^verbatim>\<open>finally\<close> block closes the socket and clears \<^verbatim>\<open>_client\<close>, and the thread
  ends with the \<^verbatim>\<open>TypeError\<close>.
\<close>

theorem binary_message_ends_thread:
  assumes "s = run loads evs (init tw)" and "bg s = Recv c"
  shows "handle_raw_message loads (Binary b) s = (Some TypeError, s)
       \<and> step loads (Recv_Returns (Binary b)) s = s\<lparr>bg := Finally_Close c (Some TypeError)\<rparr>
       \<and> run loads [Recv_Returns (Binary b), Bg_Step, Bg_Step] s =
           s\<lparr>client := None, bg := Raised TypeError, closed := insert c (closed s)\<rparr>
       \<and> \<not> thread_alive (run loads [Recv_Returns (Binary b), Bg_Step, Bg_Step] s)
       \<and> requests (run loads [Recv_Returns (Binary b), Bg_Step, Bg_Step] s) = requests s"
proof -
  have inv: "mgr_inv s"
    unfolding assms(1) by (rule mgr_inv_reachable)
  have alive: "thread_alive s"
    using inv assms(2) by (intro bg_alive) simp_all
  have h: "handle_raw_message loads (Binary b) s = (Some TypeError, s)"
    by (simp add: handle_raw_message_def)
  have s1: "step loads (Recv_Returns (Binary b)) s = s\<lparr>bg := Finally_Close c (Some TypeError)\<rparr>"
    using alive assms(2) h by (simp add: step_def recv_returns_def)
  have s2: "step loads Bg_Step (s\<lparr>bg := Finally_Close c (Some TypeError)\<rparr>) =
              s\<lparr>bg := Finally_Lock (Some TypeError), closed := insert c (closed s)\<rparr>"
    using alive by (simp add: step_def bg_step_def thread_alive_def split: option.splits)
  have s3: "step loads Bg_Step (s\<lparr>bg := Finally_Lock (Some TypeError), closed := insert c (closed s)\<rparr>) =
              s\<lparr>client := None, bg := Raised TypeError, closed := insert c (closed s)\<rparr>"
    using alive by (simp add: step_def bg_step_def thread_alive_def split: option.splits)
  have r: "run loads [Recv_Returns (Binary b), Bg_Step, Bg_Step] s =
           s\<lparr>client := None, bg := Raised TypeError, closed := insert c (closed s)\<rparr>"
    by (simp add: s1 s2 s3)
  show ?thesis
    unfolding r using h s1 by (simp add: thread_alive_def split: option.splits)
qed

theorem binary_message_ends_thread_witness:
  "bg (run loads_example connected (init twitch_ok)) = Recv 0
   \<and> bg (run loads_example [Recv_Returns (Binary [1, 2]), Bg_Step, Bg_Step]
          (run loads_example connected (init twitch_ok))) = Raised TypeError
   \<and> client (run loads_example [Recv_Returns (Binary [1, 2]), Bg_Step, Bg_Step]
          (run loads_example connected (init twitch_ok))) = None
   \<and> closed (run loads_example [Recv_Returns (Binary [1, 2]), Bg_Step, Bg_Step]
          (run loads_example connected (init twitch_ok))) = {0}"
proof -
  have b: "bg (run loads_example connected (init twitch_ok)) = Recv 0"
    by (simp add: connected_eq)
  have r: "run loads_example [Recv_Returns (Binary [1, 2]), Bg_Step, Bg_Step]
             (run loads_example connected (init twitch_ok)) =
           (run loads_example connected (init twitch_ok))
             \<lparr>client := None, bg := Raised TypeError,
              closed := insert 0 (closed (run loads_example connected (init twitch_ok)))\<rparr>"
    using binary_message_ends_thread[OF refl b, of "[1, 2]"]
    by (rule conjunct1[OF conjunct2[OF conjunct2]])
  show ?thesis
    unfolding r using b by (simp add: connected_eq)
qed

lemma run_append: "run loads (xs @ ys) s = run loads ys (run loads xs s)"
  by (induction xs arbitrary: s) simp_all


lemma join_blocks:
  "i < length (stops s) \<Longrightarrow> stops s ! i = Stop_Join k \<Longrightarrow> alive_thread s k \<Longrightarrow>
     step loads (Stop_Continue i) s = s"
  by (simp add: step_def stop_thread_continue_def alive_thread_def)


















lemma quiet_step:
  assumes "mgr_inv s" and "thread_alive s" and "\<not> should_stop s" and "caller_no_new_stop ev"
  shows "step loads ev s = s"
proof -
  have t: "thread s \<noteq> None"
    using assms(2) by (auto simp: thread_alive_def split: option.splits)
  have n: "stops s = []"
    using assms(1,3) by (auto simp: mgr_inv_def)
  show ?thesis
    using assms(2,4) t n
    by (cases ev)
      (auto simp: caller_no_new_stop_def step_def add_subscription_def start_thread_def
        stop_thread_continue_def)
qed

lemma quiet_run:
  "mgr_inv s \<Longrightarrow> thread_alive s \<Longrightarrow> \<not> should_stop s \<Longrightarrow> list_all caller_no_new_stop qs \<Longrightarrow>
     run loads qs s = s"
  by (induction qs) (simp_all add: quiet_step)

text \<open>
  C9. In every reachable state in which the thread waits in \<^verbatim>\<open>recv\<close> on socket \<open>c\<close>
  and no stop has been requested: when \<^verbatim>\<open>recv\<close> raises \<^verbatim>\<open>ConnectionClosedOK\<close> or
  \<^verbatim>\<open>ConnectionClosedError\<close>, the receive loop ends with no exception passing on; the
  thread's next three steps close the socket, clear \<^verbatim>\<open>_client\<close>, and pass the first
  locked block of \<^verbatim>\<open>_maybe_create_client\<close> into a new \<^verbatim>\<open>connect\<close>. \<^verbatim>\<open>_client\<close> is
  cleared before that new attempt starts. The thread stays alive throughout, and this
  holds however the callers' operations (other than a new \<^verbatim>\<open>stop_thread\<close>) are
  interleaved with the thread's steps: none of them changes the state.
\<close>

theorem closure_is_followed_by_reconnect:
  assumes "s = run loads evs (init tw)" and "bg s = Recv c" and "\<not> should_stop s"
    and "e = ConnectionClosedOK \<or> e = ConnectionClosedError"
    and "list_all caller_no_new_stop q0" and "list_all caller_no_new_stop q1"
    and "list_all caller_no_new_stop q2" and "list_all caller_no_new_stop q3"
  shows "run loads (q0 @ [Recv_Raises e] @ q1) s = s\<lparr>bg := Finally_Close c None\<rparr>
       \<and> run loads (q0 @ [Recv_Raises e] @ q1 @ [Bg_Step] @ q2) s =
           s\<lparr>bg := Finally_Lock None, closed := insert c (closed s)\<rparr>
       \<and> run loads (q0 @ [Recv_Raises e] @ q1 @ [Bg_Step] @ q2 @ [Bg_Step] @ q3) s =
           s\<lparr>client := None, bg := Create_First_Lock, closed := insert c (closed s)\<rparr>
       \<and> run loads (q0 @ [Recv_Raises e] @ q1 @ [Bg_Step] @ q2 @ [Bg_Step] @ q3 @ [Bg_Step]) s =
           s\<lparr>client := None, bg := Connect, closed := insert c (closed s)\<rparr>
       \<and> thread_alive
           (run loads (q0 @ [Recv_Raises e] @ q1 @ [Bg_Step] @ q2 @ [Bg_Step] @ q3 @ [Bg_Step]) s)"
proof -
  let ?s1 = "s\<lparr>bg := Finally_Close c None\<rparr>"
  let ?s2 = "s\<lparr>bg := Finally_Lock None, closed := insert c (closed s)\<rparr>"
  let ?s3 = "s\<lparr>client := None, bg := Create_First_Lock, closed := insert c (closed s)\<rparr>"
  let ?s4 = "s\<lparr>client := None, bg := Connect, closed := insert c (closed s)\<rparr>"
  have inv0: "mgr_inv s"
    unfolding assms(1) by (rule mgr_inv_reachable)
  have alive0: "thread_alive s"
    using inv0 assms(2) by (intro bg_alive) simp_all
  have th: "thread s \<noteq> None"
    using alive0 by (auto simp: thread_alive_def split: option.splits)
  have al: "thread_alive ?s1" "thread_alive ?s2" "thread_alive ?s3" "thread_alive ?s4"
    using th by (auto simp: thread_alive_def split: option.splits)
  have ns: "\<not> should_stop ?s1" "\<not> should_stop ?s2" "\<not> should_stop ?s3"
    using assms(3) by simp_all
  have st1: "step loads (Recv_Raises e) s = ?s1"
    using alive0 assms(2,4) by (auto simp: step_def recv_raises_def)
  have st2: "step loads Bg_Step ?s1 = ?s2"
    using al(1) by (simp add: step_def bg_step_def)
  have st3: "step loads Bg_Step ?s2 = ?s3"
    using al(2) by (simp add: step_def bg_step_def)
  have st4: "step loads Bg_Step ?s3 = ?s4"
    using al(3) assms(3) by (simp add: step_def bg_step_def)
  have inv1: "mgr_inv ?s1"
    using mgr_inv_step[OF inv0, of loads "Recv_Raises e"] by (simp only: st1)
  have inv2: "mgr_inv ?s2"
    using mgr_inv_step[OF inv1, of loads Bg_Step] by (simp only: st2)
  have inv3: "mgr_inv ?s3"
    using mgr_inv_step[OF inv2, of loads Bg_Step] by (simp only: st3)
  have q0: "run loads q0 s = s"
    using inv0 alive0 assms(3,5) by (rule quiet_run)
  have q1: "run loads q1 ?s1 = ?s1"
    using inv1 al(1) ns(1) assms(6) by (rule quiet_run)
  have q2: "run loads q2 ?s2 = ?s2"
    using inv2 al(2) ns(2) assms(7) by (rule quiet_run)
  have q3: "run loads q3 ?s3 = ?s3"
    using inv3 al(3) ns(3) assms(8) by (rule quiet_run)
  have r1: "run loads (q0 @ [Recv_Raises e] @ q1) s = ?s1"
    by (simp only: run_append run.simps q0 st1 q1)
  have r2: "run loads (q0 @ [Recv_Raises e] @ q1 @ [Bg_Step] @ q2) s = ?s2"
    by (simp only: run_append run.simps q0 st1 q1 st2 q2)
  have r3: "run loads (q0 @ [Recv_Raises e] @ q1 @ [Bg_Step] @ q2 @ [Bg_Step] @ q3) s = ?s3"
    by (simp only: run_append run.simps q0 st1 q1 st2 q2 st3 q3)
  have r4: "run loads (q0 @ [Recv_Raises e] @ q1 @ [Bg_Step] @ q2 @ [Bg_Step] @ q3 @ [Bg_Step]) s = ?s4"
    by (simp only: run_append run.simps q0 st1 q1 st2 q2 st3 q3 st4)
  show ?thesis
    by (simp only: r1 r2 r3 r4 al simp_thms)
qed

theorem closure_is_followed_by_reconnect_witness:
  "bg (run loads_example connected (init twitch_ok)) = Recv 0
   \<and> \<not> should_stop (run loads_example connected (init twitch_ok))
   \<and> list_all caller_no_new_stop [Start_Thread]
   \<and> list_all caller_no_new_stop [Add_Subscription ''channel.cheer'' ''1'' JNull]
   \<and> bg (run loads_example
            ([] @ [Recv_Raises ConnectionClosedOK] @ [Start_Thread] @ [Bg_Step]
               @ [Add_Subscription ''channel.cheer'' ''1'' JNull] @ [Bg_Step] @ [] @ [Bg_Step])
            (run loads_example connected (init twitch_ok))) = Connect
   \<and> client (run loads_example
            ([] @ [Recv_Raises ConnectionClosedOK] @ [Start_Thread] @ [Bg_Step]
               @ [Add_Subscription ''channel.cheer'' ''1'' JNull] @ [Bg_Step] @ [] @ [Bg_Step])
            (run loads_example connected (init twitch_ok))) = None
   \<and> closed (run loads_example
            ([] @ [Recv_Raises ConnectionClosedOK] @ [Start_Thread] @ [Bg_Step]
               @ [Add_Subscription ''channel.cheer'' ''1'' JNull] @ [Bg_Step] @ [] @ [Bg_Step])
            (run loads_example connected (init twitch_ok))) = {0}"
proof -
  let ?s = "run loads_example connected (init twitch_ok)"
  have b: "bg ?s = Recv 0"
    by (simp add: connected_eq)
  have n: "\<not> should_stop ?s"
    by (simp add: connected_eq)
  have e: "ConnectionClosedOK = ConnectionClosedOK \<or> ConnectionClosedOK = ConnectionClosedError"
    by simp
  have q0: "list_all caller_no_new_stop []"
    by simp
  have q1: "list_all caller_no_new_stop [Start_Thread]"
    by (simp add: caller_no_new_stop_def)
  have q2: "list_all caller_no_new_stop [Add_Subscription ''channel.cheer'' ''1'' JNull]"
    by (simp add: caller_no_new_stop_def)
  note t = closure_is_followed_by_reconnect[OF refl b n e q0 q1 q2 q0]
  have r: "run loads_example
            ([] @ [Recv_Raises ConnectionClosedOK] @ [Start_Thread] @ [Bg_Step]
               @ [Add_Subscription ''channel.cheer'' ''1'' JNull] @ [Bg_Step] @ [] @ [Bg_Step]) ?s =
           ?s\<lparr>client := None, bg := Connect, closed := insert 0 (closed ?s)\<rparr>"
    using t by (rule conjunct1[OF conjunct2[OF conjunct2[OF conjunct2]]])
  show ?thesis
    unfolding r using b n q1 q2 by (simp add: connected_eq)
qed

lemma stopped_eq:
  "run loads stopped (init tw) =
     \<lparr>twitch = tw,
      subscriptions = [\<lparr>type = ''channel.follow'', version = ''2'', condition = JNull\<rparr>],
      thread = Some 0, should_stop = True, client = None, bg = Returned, sockets = Suc 0,
      closed = {0}, requests = [], stops = [Stop_Returned (Some 0)]\<rparr>"
  unfolding stopped_def run_append connected_eq
  by (simp add: step_def thread_alive_def bg_step_def stop_thread_enter_def
      stop_thread_continue_def recv_raises_def)

lemma first_lock_waits:
  assumes "bg s = Create_First_Lock" and "thread s = Some j" and "should_stop s"
    and "client s = None" and "ev \<noteq> Bg_Step"
  shows "bg (step loads ev s) = Create_First_Lock \<and> thread (step loads ev s) = Some j
       \<and> should_stop (step loads ev s) \<and> client (step loads ev s) = None
       \<and> sockets (step loads ev s) = sockets s"
proof -
  have alive: "thread_alive s"
    using assms(1,2) by (simp add: thread_alive_def)
  show ?thesis
  proof (cases ev)
    case (Stop_Continue i)
    show ?thesis
      unfolding Stop_Continue using assms(1-4)
      by (cases "stops s ! i")
        (auto simp: step_def stop_thread_continue_def split: option.splits)
  qed (use assms alive in \<open>auto simp: step_def add_subscription_def start_thread_def
        stop_thread_enter_def connect_returns_def connect_raises_def recv_returns_def
        recv_raises_def\<close>)
qed

lemma first_lock_waits_run:
  assumes "Bg_Step \<notin> set qs"
  shows "bg s = Create_First_Lock \<and> thread s = Some j \<and> should_stop s \<and> client s = None \<Longrightarrow>
         bg (run loads qs s) = Create_First_Lock \<and> thread (run loads qs s) = Some j
       \<and> should_stop (run loads qs s) \<and> client (run loads qs s) = None
       \<and> sockets (run loads qs s) = sockets s"
  using assms
proof (induction qs arbitrary: s)
  case Nil
  then show ?case by simp
next
  case (Cons ev qs)
  from Cons.prems have ne: "ev \<noteq> Bg_Step" and rest: "Bg_Step \<notin> set qs"
    by auto
  from Cons.prems(1) ne
  have st: "bg (step loads ev s) = Create_First_Lock \<and> thread (step loads ev s) = Some j
       \<and> should_stop (step loads ev s) \<and> client (step loads ev s) = None
       \<and> sockets (step loads ev s) = sockets s"
    by (intro first_lock_waits) simp_all
  then have "bg (step loads ev s) = Create_First_Lock \<and> thread (step loads ev s) = Some j
       \<and> should_stop (step loads ev s) \<and> client (step loads ev s) = None"
    by simp
  from Cons.IH[OF this rest] st show ?case
    by simp
qed

text \<open>
  C10. In every reachable state in which \<^verbatim>\<open>_should_stop\<close> is set and the thread
  that was started is no longer alive: nothing that happens later clears the flag;
  \<^verbatim>\<open>start_thread\<close> is accepted and starts a new thread; and whatever the callers do
  before that thread takes its first step, the step finds the flag set at the first
  locked block of \<^verbatim>\<open>_maybe_create_client\<close> and \<^verbatim>\<open>_run_thread\<close> returns: the new
  thread has ended, no socket was opened and none is published.
\<close>

theorem restart_after_stop_exits_at_once:
  assumes "s = run loads evs (init tw)" and "should_stop s" and "thread s = Some k"
    and "\<not> thread_alive s" and "Bg_Step \<notin> set qs"
  shows "should_stop (run loads evs' s)
       \<and> start_thread s = Inr (s\<lparr>thread := Some (Suc k), bg := Create_First_Lock\<rparr>)
       \<and> thread_alive (step loads Start_Thread s)
       \<and> bg (run loads (Start_Thread # qs @ [Bg_Step]) s) = Returned
       \<and> thread (run loads (Start_Thread # qs @ [Bg_Step]) s) = Some (Suc k)
       \<and> \<not> thread_alive (run loads (Start_Thread # qs @ [Bg_Step]) s)
       \<and> sockets (run loads (Start_Thread # qs @ [Bg_Step]) s) = sockets s
       \<and> client (run loads (Start_Thread # qs @ [Bg_Step]) s) = None"
proof -
  let ?s1 = "s\<lparr>thread := Some (Suc k), bg := Create_First_Lock\<rparr>"
  let ?s2 = "run loads qs ?s1"
  have inv: "mgr_inv s"
    unfolding assms(1) by (rule mgr_inv_reachable)
  have subs: "subscriptions s \<noteq> []"
    using inv assms(3) by (simp add: mgr_inv_def)
  have cl: "client s = None"
    using inv assms(3,4)
    by (cases "bg s") (auto simp: mgr_inv_def client_inv_def thread_alive_def)
  have a: "should_stop (run loads evs' s)"
    using assms(2) by (rule should_stop_run)
  have b: "start_thread s = Inr ?s1"
    using subs assms(3,4) by (simp add: start_thread_def)
  have st: "step loads Start_Thread s = ?s1"
    using b by (simp add: step_def)
  have c: "thread_alive (step loads Start_Thread s)"
    unfolding st by (simp add: thread_alive_def)
  have "bg ?s1 = Create_First_Lock \<and> thread ?s1 = Some (Suc k) \<and> should_stop ?s1
        \<and> client ?s1 = None"
    using assms(2) cl by simp
  from first_lock_waits_run[OF assms(5) this]
  have w: "bg ?s2 = Create_First_Lock" "thread ?s2 = Some (Suc k)" "should_stop ?s2"
    "client ?s2 = None" "sockets ?s2 = sockets s"
    by simp_all
  have last: "step loads Bg_Step ?s2 = ?s2\<lparr>bg := Returned\<rparr>"
    using w(1-4) by (simp add: step_def thread_alive_def bg_step_def)
  have r: "run loads (Start_Thread # qs @ [Bg_Step]) s = ?s2\<lparr>bg := Returned\<rparr>"
    by (simp only: run.simps run_append st last)
  show ?thesis
    unfolding r using a b c w by (simp add: thread_alive_def)
qed

theorem restart_after_stop_exits_at_once_witness:
  "should_stop (run loads_example stopped (init twitch_ok))
   \<and> thread (run loads_example stopped (init twitch_ok)) = Some 0
   \<and> \<not> thread_alive (run loads_example stopped (init twitch_ok))
   \<and> Bg_Step \<notin> set [Stop_Thread]
   \<and> start_thread (run loads_example stopped (init twitch_ok)) =
       Inr ((run loads_example stopped (init twitch_ok))
              \<lparr>thread := Some (Suc 0), bg := Create_First_Lock\<rparr>)
   \<and> bg (run loads_example (Start_Thread # [Stop_Thread] @ [Bg_Step])
          (run loads_example stopped (init twitch_ok))) = Returned
   \<and> sockets (run loads_example (Start_Thread # [Stop_Thread] @ [Bg_Step])
          (run loads_example stopped (init twitch_ok))) = Suc 0"
proof -
  let ?s = "run loads_example stopped (init twitch_ok)"
  have f: "should_stop ?s"
    by (simp add: stopped_eq)
  have t: "thread ?s = Some 0"
    by (simp add: stopped_eq)
  have d: "\<not> thread_alive ?s"
    by (simp add: stopped_eq thread_alive_def)
  have q: "Bg_Step \<notin> set [Stop_Thread]"
    by simp
  note th = restart_after_stop_exits_at_once[OF refl f t d q, of "[]"]
  have s0: "sockets ?s = Suc 0"
    by (simp add: stopped_eq)
  from th f t d q s0 show ?thesis
    by simp
qed

end
